theory Spec2Isabelle
  imports Main
begin

section \<open>Texts\<close>

text \<open>
  A Python \<open>str\<close> is modelled as a \<open>string\<close>: a list of characters, each one a code point
  below 256.  On such texts \<open>str.strip()\<close> removes the characters for which
  \<open>str.isspace()\<close> holds: tab, line feed, vertical tab, form feed, carriage return, the
  four separators \<open>0x1C\<close> to \<open>0x1F\<close>, the space, \<open>0x85\<close> and \<open>0xA0\<close>.
\<close>

definition isspace :: "char \<Rightarrow> bool" where
  "isspace c = (c \<in> set [CHR 0x09, CHR 0x0A, CHR 0x0B, CHR 0x0C, CHR 0x0D,
                          CHR 0x1C, CHR 0x1D, CHR 0x1E, CHR 0x1F, CHR 0x20,
                          CHR 0x85, CHR 0xA0])"

definition lstrip :: "string \<Rightarrow> string" where
  "lstrip s = dropWhile isspace s"

definition rstrip :: "string \<Rightarrow> string" where
  "rstrip s = rev (dropWhile isspace (rev s))"

definition strip :: "string \<Rightarrow> string" where
  "strip s = rstrip (lstrip s)"

text \<open>
  Under the flag \<open>(?i)\<close> a literal of the pattern and a character of the text match when
  their lower-case forms agree.  Every literal of the patterns below is ASCII, and no
  code point below 256 other than an ASCII capital has an ASCII letter as lower-case form,
  so the ASCII table decides the comparison.
\<close>

definition lower :: "char \<Rightarrow> char" where
  "lower c = (case map_of (zip ''ABCDEFGHIJKLMNOPQRSTUVWXYZ'' ''abcdefghijklmnopqrstuvwxyz'') c of
                Some l \<Rightarrow> l | None \<Rightarrow> c)"

section \<open>The regular expressions of \<open>_sanitize_answer\<close>\<close>

text \<open>
  Python's \<open>re\<close> is a backtracking matcher.  A piece of a pattern is modelled as a
  function that takes the continuation (the matcher of what follows it in the pattern)
  and the text that is left, and returns the text left after the whole match, or \<open>None\<close>.
  Alternatives are tried in the order the backtracking engine tries them.
\<close>

type_synonym cont = "string \<Rightarrow> string option"
type_synonym matcher = "cont \<Rightarrow> cont"

definition orelse :: "string option \<Rightarrow> string option \<Rightarrow> string option" where
  "orelse a b = (case a of Some r \<Rightarrow> Some r | None \<Rightarrow> b)"

text \<open>A literal, compared without regard to case.\<close>

fun lit_ci :: "string \<Rightarrow> matcher" where
  "lit_ci [] k s = k s"
| "lit_ci (p # ps) k [] = None"
| "lit_ci (p # ps) k (c # cs) = (if lower c = lower p then lit_ci ps k cs else None)"

text \<open>A character class such as \<open>[- ]\<close>.\<close>

definition one_of :: "string \<Rightarrow> matcher" where
  "one_of cls k s = (case s of [] \<Rightarrow> None | c # cs \<Rightarrow> if c \<in> set cls then k cs else None)"

text \<open>The greedy \<open>m?\<close>: first with \<open>m\<close>, then without.\<close>

definition opt :: "matcher \<Rightarrow> matcher" where
  "opt m k s = orelse (m k s) (k s)"

text \<open>The alternation \<open>(a|b)\<close>: first \<open>a\<close>, then \<open>b\<close>.\<close>

definition alt :: "matcher \<Rightarrow> matcher \<Rightarrow> matcher" where
  "alt a b k s = orelse (a k s) (b k s)"

text \<open>
  The lazy \<open>c*?\<close> over a class of single characters: first the continuation at once,
  then one more character.
\<close>

fun lazy_star :: "(char \<Rightarrow> bool) \<Rightarrow> matcher" where
  "lazy_star P k [] = k []"
| "lazy_star P k (c # cs) =
     (case k (c # cs) of Some r \<Rightarrow> Some r
      | None \<Rightarrow> if P c then lazy_star P k cs else None)"

text \<open>\<open>.\<close> without the flag \<open>s\<close> is every character but the line feed; \<open>[\s\S]\<close> is every character.\<close>

definition dot :: "char \<Rightarrow> bool" where
  "dot c = (c \<noteq> CHR 0x0A)"

definition space_or_not :: "char \<Rightarrow> bool" where
  "space_or_not c = (isspace c \<or> \<not> isspace c)"

text \<open>
  None of the patterns sets the flag \<open>m\<close>: \<open>^\<close> matches at the start of the text only
  (\<open>at0\<close> tells whether the match starts there), and \<open>$\<close> at the end of the text or before a
  line feed that ends the text.
\<close>

definition bol :: "bool \<Rightarrow> matcher" where
  "bol at0 k s = (if at0 then k s else None)"

definition eos :: "matcher" where
  "eos k s = (if s = [] \<or> s = [CHR 0x0A] then k s else None)"

text \<open>The end of a match: what is left of the text.\<close>

definition done_m :: "cont" where
  "done_m s = Some s"

text \<open>\<^verbatim>\<open>(?i)^thoughts?:.*?(\n|$)\<close>\<close>

definition pat_thoughts :: "bool \<Rightarrow> cont" where
  "pat_thoughts at0 =
     bol at0 (lit_ci ''thought'' (opt (lit_ci ''s'') (lit_ci '':''
       (lazy_star dot (alt (lit_ci [CHR 0x0A]) eos done_m)))))"

text \<open>\<^verbatim>\<open>(?i)^reasoning:.*?(\n|$)\<close>\<close>

definition pat_reasoning :: "bool \<Rightarrow> cont" where
  "pat_reasoning at0 =
     bol at0 (lit_ci ''reasoning:'' (lazy_star dot (alt (lit_ci [CHR 0x0A]) eos done_m)))"

text \<open>\<^verbatim>\<open>(?i)^analysis:.*?(\n|$)\<close>\<close>

definition pat_analysis :: "bool \<Rightarrow> cont" where
  "pat_analysis at0 =
     bol at0 (lit_ci ''analysis:'' (lazy_star dot (alt (lit_ci [CHR 0x0A]) eos done_m)))"

text \<open>\<^verbatim>\<open>(?is)```(?:thought|chain[- ]?of[- ]?thought|analysis)[\s\S]*?```\<close>\<close>

definition fence_label :: "matcher" where
  "fence_label =
     alt (lit_ci ''thought'')
       (alt (\<lambda>k. lit_ci ''chain'' (opt (one_of ''- '') (lit_ci ''of''
                     (opt (one_of ''- '') (lit_ci ''thought'' k)))))
            (lit_ci ''analysis''))"

definition pat_fence :: "bool \<Rightarrow> cont" where
  "pat_fence at0 =
     lit_ci ''```'' (fence_label (lazy_star space_or_not (lit_ci ''```'' done_m)))"

definition patterns :: "(bool \<Rightarrow> cont) list" where
  "patterns = [pat_thoughts, pat_reasoning, pat_analysis, pat_fence]"

text \<open>
  \<open>re.sub(pat, "", s)\<close>: the text is scanned from the left; where the pattern matches, the
  match is dropped and the scan goes on behind it; elsewhere the character is kept.  A
  match that consumes nothing is replaced by the empty text and the scan moves one
  character on, which is the second branch of the \<open>if\<close>.
\<close>

fun re_sub :: "(bool \<Rightarrow> cont) \<Rightarrow> bool \<Rightarrow> string \<Rightarrow> string" where
  "re_sub pat at0 [] = []"
| "re_sub pat at0 (c # cs) =
     (case pat at0 (c # cs) of
        None \<Rightarrow> c # re_sub pat False cs
      | Some r \<Rightarrow> if length r < Suc (length cs) then re_sub pat False r
                  else c # re_sub pat False cs)"

text \<open>
  \<^verbatim>\<open>cleaned = text
  for pat in patterns:
      cleaned = re.sub(pat, "", cleaned).strip()
  return cleaned\<close>
\<close>

definition sanitize_step :: "(bool \<Rightarrow> cont) \<Rightarrow> string \<Rightarrow> string" where
  "sanitize_step pat cleaned = strip (re_sub pat True cleaned)"

definition sanitize_answer :: "string \<Rightarrow> string" where
  "sanitize_answer text = fold sanitize_step patterns text"
definition stripped :: "string \<Rightarrow> bool" where
  "stripped s = (case s of [] \<Rightarrow> True | c # cs \<Rightarrow> \<not> isspace c \<and> \<not> isspace (last (c # cs)))"

fun any_suffix :: "(string \<Rightarrow> bool) \<Rightarrow> string \<Rightarrow> bool" where
  "any_suffix P [] = P []"
| "any_suffix P (c # cs) = (P (c # cs) \<or> any_suffix P cs)"

definition leq_k :: "cont \<Rightarrow> cont \<Rightarrow> bool" where
  "leq_k k k' = (\<forall>t. k t \<noteq> None \<longrightarrow> k' t \<noteq> None)"

definition mono_k :: "cont \<Rightarrow> bool" where
  "mono_k k = (\<forall>s w. k s \<noteq> None \<longrightarrow> k (s @ w) \<noteq> None)"

definition short_k :: "nat \<Rightarrow> cont \<Rightarrow> bool" where
  "short_k n k = (\<forall>s r. k s = Some r \<longrightarrow> length r + n \<le> length s)"

definition starts_marker :: "string \<Rightarrow> bool" where
  "starts_marker y = (pat_thoughts True y \<noteq> None \<or> pat_reasoning True y \<noteq> None
                      \<or> pat_analysis True y \<noteq> None)"

definition has_fence :: "string \<Rightarrow> bool" where
  "has_fence y = any_suffix (\<lambda>t. pat_fence False t \<noteq> None) y"

definition clean :: "string \<Rightarrow> bool" where
  "clean y = (\<not> starts_marker y \<and> \<not> has_fence y)"

definition anchored :: "(bool \<Rightarrow> cont) \<Rightarrow> bool" where
  "anchored pat = (\<forall>s. pat False s = None)"

definition head_thoughts :: cont where
  "head_thoughts = lit_ci ''thought'' (opt (lit_ci ''s'') (lit_ci '':'' done_m))"

definition head_reasoning :: cont where
  "head_reasoning = lit_ci ''reasoning:'' done_m"

definition head_analysis :: cont where
  "head_analysis = lit_ci ''analysis:'' done_m"

definition head_fence :: cont where
  "head_fence = lit_ci ''```'' (fence_label done_m)"

definition marker_at :: "string \<Rightarrow> bool" where
  "marker_at t = (head_thoughts t \<noteq> None \<or> head_reasoning t \<noteq> None
                  \<or> head_analysis t \<noteq> None \<or> head_fence t \<noteq> None)"

definition contains_marker :: "string \<Rightarrow> bool" where
  "contains_marker x = any_suffix marker_at x"

definition line_markers :: "string list" where
  "line_markers = [''thought:'', ''thoughts:'', ''reasoning:'', ''analysis:'']"

definition is_marker :: "string \<Rightarrow> bool" where
  "is_marker m = (map lower m \<in> set line_markers)"

definition seps :: "string list" where
  "seps = [[], ''-'', '' '']"

definition fence_labels :: "string list" where
  "fence_labels = [''thought'', ''analysis'']
     @ [''chain'' @ s1 @ ''of'' @ s2 @ ''thought''. s1 \<leftarrow> seps, s2 \<leftarrow> seps]"

definition is_label :: "string \<Rightarrow> bool" where
  "is_label lab = (map lower lab \<in> set fence_labels)"

text \<open>The lines of a text: the pieces between its line feeds.\<close>

fun split_nl :: "string \<Rightarrow> string list" where
  "split_nl [] = [[]]"
| "split_nl (c # cs) =
     (if c = CHR 0x0A then [] # split_nl cs
      else (case split_nl cs of [] \<Rightarrow> [[c]] | l # ls \<Rightarrow> (c # l) # ls))"

definition begins_with_marker :: "string \<Rightarrow> bool" where
  "begins_with_marker l = (head_thoughts l \<noteq> None \<or> head_reasoning l \<noteq> None
                           \<or> head_analysis l \<noteq> None)"

definition has_marker_line :: "string \<Rightarrow> bool" where
  "has_marker_line s = list_ex begins_with_marker (split_nl s)"
section \<open>The study assistant\<close>

subsection \<open>Data\<close>

text \<open>
  \<open>StudyAssistantResponse\<close>: the answer and three lists.  The lists have
  \<open>default_factory=list\<close>, so a validated response always carries them.
\<close>

record StudyAssistantResponse =
  answer :: string
  key_points :: "string list"
  suggested_questions :: "string list"
  references :: "string list"

datatype message = SystemMessage string | HumanMessage string | AIMessage string

text \<open>
  The exceptions, by the classes that \<open>ask\<close> tells apart in
  \<^verbatim>\<open>except (BadRequestError, ValueError, KeyError)\<close>.  \<open>BadRequestError\<close> is the provider
  rejecting the request; \<open>ValueError\<close> and \<open>KeyError\<close> are what parsing and validating a
  malformed output raise; \<open>OtherError\<close> is every exception that is an instance of none
  of the three classes (a provider that cannot be reached, a rate limit, a failing
  store).  The text is the message of the exception.
\<close>

datatype exc = BadRequestError string | ValueError string | KeyError string | OtherError string

fun retryable :: "exc \<Rightarrow> bool" where
  "retryable (BadRequestError _) = True"
| "retryable (ValueError _) = True"
| "retryable (KeyError _) = True"
| "retryable (OtherError _) = False"

text \<open>A document of the vector store: its text and its metadata, a dictionary or \<open>None\<close>.\<close>

record document =
  page_content :: string
  metadata :: "(string \<times> string) list option"

text \<open>The two structured models: \<open>method="json_mode"\<close> and \<open>method="json_schema"\<close>.\<close>

datatype strategy = JsonMode | JsonSchema

text \<open>
  What the assistant is built on and does not define: the two structured models (a
  prompt gives a validated response or raises), the retriever over the contents of the
  store, and whether adding a document to the store raises.
\<close>

record env =
  structured_llm :: "strategy \<Rightarrow> message list \<Rightarrow> exc + StudyAssistantResponse"
  retriever :: "document list \<Rightarrow> string \<Rightarrow> exc + document list"
  add_texts_error :: "document list \<Rightarrow> document \<Rightarrow> exc option"

text \<open>
  The state of a \<open>StudyAssistant\<close>: \<open>_message_store\<close>, the dictionary from session ids
  to histories; the documents of \<open>_vectorstore\<close>; and a trace of the calls made to the
  structured models, which the source does not keep and which is recorded here to say
  how often and with which prompt they are called.
\<close>

record state =
  message_store :: "string \<rightharpoonup> message list"
  vectorstore :: "document list"
  llm_calls :: "(strategy \<times> message list) list"

text \<open>The dictionary that the chain returns: \<open>{"ai_message": ..., "result": ...}\<close>.\<close>

record chain_output =
  ai_message :: message
  result :: StudyAssistantResponse

subsection \<open>Helpers\<close>

text \<open>\<open>sep.join(xs)\<close>\<close>

fun join :: "string \<Rightarrow> string list \<Rightarrow> string" where
  "join sep [] = []"
| "join sep [x] = x"
| "join sep (x # y # ys) = x @ sep @ join sep (y # ys)"

text \<open>\<open>str(n)\<close> for a natural number.\<close>

definition digit :: "nat \<Rightarrow> char" where
  "digit d = ''0123456789'' ! d"

function str_nat :: "nat \<Rightarrow> string" where
  "str_nat n = (if n < 10 then [digit n] else str_nat (n div 10) @ [digit (n mod 10)])"
  by pat_completeness auto
termination
  by (relation "measure id") auto

subsection \<open>The prompt\<close>

text \<open>
  \<open>ChatPromptTemplate.from_messages\<close>: the system message with \<open>{style}\<close> and \<open>{notes}\<close>
  filled in, the messages of the history in the place of \<open>chat_history\<close>, and the human
  message with \<open>{input}\<close> filled in.
\<close>

definition system_text :: "string \<Rightarrow> string \<Rightarrow> string" where
  "system_text style notes =
     ''You are a kind, rigorous study assistant. Be helpfull, cite facts, and help users learn. explain the answer in a way that is easy to understand and follow.\<newline>''
     @ ''Use prior study notes when relevant. If you do not know, say so.\<newline>''
     @ ''Never reveal chain-of-thought, analysis notes, hidden reasoning, or step-by-step traces.\<newline>''
     @ ''Only provide final answers according to the style and brief bullet points.\<newline>''
     @ ''always Make sure to add Follow-up questions on the topic.\<newline>''
     @ ''Adjust verbosity based on the user's chosen style: '' @ style @ ''.\<newline>''
     @ ''- If style is 'short': keep answers to 2-4 sentences and at most 3 key points.\<newline>''
     @ ''- If style is 'detailed': provide thorough explanations, examples, and up to 7 key points.\<newline>\<newline>''
     @ ''Prior notes (may be empty):\<newline>'' @ notes"

definition human_text :: "string \<Rightarrow> string" where
  "human_text input =
     ''Follow the JSON schema strictly. Do not include extra text before or after the JSON.\<newline>''
     @ ''Respond to the user's message and return a JSON object that matches the schema.\<newline>''
     @ ''User message: '' @ input"

definition prompt :: "string \<Rightarrow> string \<Rightarrow> message list \<Rightarrow> string \<Rightarrow> message list" where
  "prompt style notes chat_history input =
     SystemMessage (system_text style notes) # chat_history @ [HumanMessage (human_text input)]"

subsection \<open>The chain with its history\<close>

definition to_history_and_result :: "StudyAssistantResponse \<Rightarrow> chain_output" where
  "to_history_and_result resp = \<lparr>ai_message = AIMessage (answer resp), result = resp\<rparr>"

text \<open>
  \<^verbatim>\<open>if session_id not in self._message_store:
      self._message_store[session_id] = InMemoryChatMessageHistory()
  return self._message_store[session_id]\<close>
\<close>

definition get_or_create_history :: "state \<Rightarrow> string \<Rightarrow> state \<times> message list" where
  "get_or_create_history st session_id =
     (case message_store st session_id of
        None \<Rightarrow> (st\<lparr>message_store := (message_store st)(session_id \<mapsto> [])\<rparr>, [])
      | Some h \<Rightarrow> (st, h))"

text \<open>
  \<open>RunnableWithMessageHistory(...).invoke\<close> with \<open>input_messages_key="input"\<close>,
  \<open>history_messages_key="chat_history"\<close> and \<open>output_messages_key="ai_message"\<close>: the
  history of the session is fetched (and created when absent), its messages fill
  \<open>chat_history\<close>, the chain \<open>prompt | structured model | to_history_and_result\<close> runs,
  and when it has ended without an exception the human message of the input and the
  \<open>ai_message\<close> of the output are appended to the history.  An exception of the chain
  leaves the history as it was fetched.
\<close>

definition with_history_invoke ::
  "env \<Rightarrow> strategy \<Rightarrow> state \<Rightarrow> string \<Rightarrow> string \<Rightarrow> string \<Rightarrow> string \<Rightarrow> state \<times> (exc + chain_output)" where
  "with_history_invoke e strat st input notes style session_id =
     (let (st1, chat_history) = get_or_create_history st session_id;
          p = prompt style notes chat_history input;
          st2 = st1\<lparr>llm_calls := llm_calls st1 @ [(strat, p)]\<rparr>
      in case structured_llm e strat p of
           Inl err \<Rightarrow> (st2, Inl err)
         | Inr resp \<Rightarrow>
             (let out = to_history_and_result resp
              in (st2\<lparr>message_store := (message_store st2)
                        (session_id \<mapsto> chat_history @ [HumanMessage input, ai_message out])\<rparr>,
                  Inr out)))"

subsection \<open>Notes\<close>

text \<open>
  \<^verbatim>\<open>source = d.metadata.get("source") if isinstance(d.metadata, dict) else None
  header = f"[Note {idx}]" + (f" source={source}" if source else "")
  parts.append(f"{header}\n{d.page_content}")\<close>
\<close>

definition format_note :: "nat \<Rightarrow> document \<Rightarrow> string" where
  "format_note idx d =
     (let source = (case metadata d of None \<Rightarrow> None | Some md \<Rightarrow> map_of md ''source'');
          header = ''[Note '' @ str_nat idx @ '']''
                   @ (case source of None \<Rightarrow> [] | Some s \<Rightarrow> if s \<noteq> [] then '' source='' @ s else [])
      in header @ ''\<newline>'' @ page_content d)"

definition retrieve_notes :: "env \<Rightarrow> state \<Rightarrow> string \<Rightarrow> exc + string" where
  "retrieve_notes e st query =
     (case retriever e (vectorstore st) query of
        Inl err \<Rightarrow> Inl err
      | Inr docs \<Rightarrow>
          if docs = [] then Inr []
          else Inr (join ''\<newline>\<newline>'' (map (\<lambda>(idx, d). format_note idx d) (enumerate 1 docs))))"

text \<open>
  \<^verbatim>\<open>metadata = {"source": source} if source else None
  self._vectorstore.add_texts([text], metadatas=[metadata] if metadata else None)\<close>
\<close>

definition note_document :: "string \<Rightarrow> string option \<Rightarrow> document" where
  "note_document text source =
     \<lparr>page_content = text,
      metadata = (case source of None \<Rightarrow> None
                  | Some s \<Rightarrow> if s \<noteq> [] then Some [(''source'', s)] else None)\<rparr>"

definition save_note :: "env \<Rightarrow> state \<Rightarrow> string \<Rightarrow> string option \<Rightarrow> state \<times> (exc + unit)" where
  "save_note e st text source =
     (let d = note_document text source
      in case add_texts_error e (vectorstore st) d of
           Some err \<Rightarrow> (st, Inl err)
         | None \<Rightarrow> (st\<lparr>vectorstore := vectorstore st @ [d]\<rparr>, Inr ()))"

definition note_text :: "string \<Rightarrow> StudyAssistantResponse \<Rightarrow> string" where
  "note_text message res =
     ''Question: '' @ message @ ''\<newline>''
     @ ''Answer: '' @ answer res @ ''\<newline>''
     @ ''Key points: '' @ (if key_points res \<noteq> [] then join '', '' (key_points res) else ''None'')
     @ ''\<newline>''
     @ ''Follow-ups: ''
     @ (if suggested_questions res \<noteq> [] then join '', '' (suggested_questions res) else ''None'')"

subsection \<open>\<open>ask\<close> and \<open>reset_session\<close>\<close>

text \<open>
  \<open>ask\<close>: the notes are retrieved, the style is normalised, the chain with
  \<open>json_mode\<close> is invoked and, when it raises one of the three classes, the chain with
  \<open>json_schema\<close> on the same input; then the answer of the result is sanitised, the note
  is saved and the result is returned.  An exception anywhere else leaves \<open>ask\<close> at
  that point.
\<close>

definition ask :: "env \<Rightarrow> state \<Rightarrow> string \<Rightarrow> string \<Rightarrow> string \<Rightarrow> state \<times> (exc + StudyAssistantResponse)" where
  "ask e st message session_id style =
     (case retrieve_notes e st message of
        Inl err \<Rightarrow> (st, Inl err)
      | Inr notes \<Rightarrow>
          (let normalized_style = (if style \<in> set [''short'', ''detailed''] then style else ''short'');
               (st1, r1) = with_history_invoke e JsonMode st message notes normalized_style session_id;
               (st2, r2) = (case r1 of
                              Inr out \<Rightarrow> (st1, Inr out)
                            | Inl err \<Rightarrow>
                                if retryable err
                                then with_history_invoke e JsonSchema st1 message notes
                                       normalized_style session_id
                                else (st1, Inl err))
           in case r2 of
                Inl err \<Rightarrow> (st2, Inl err)
              | Inr out \<Rightarrow>
                  (let res = (result out)\<lparr>answer := sanitize_answer (answer (result out))\<rparr>
                   in case save_note e st2 (note_text message res) (Some ''assistant_session_memory'') of
                        (st3, Inl err) \<Rightarrow> (st3, Inl err)
                      | (st3, Inr u) \<Rightarrow> (st3, Inr res))))"

text \<open>
  \<^verbatim>\<open>if session_id in self._message_store:
      del self._message_store[session_id]\<close>
\<close>

definition reset_session :: "state \<Rightarrow> string \<Rightarrow> state" where
  "reset_session st session_id =
     (if message_store st session_id \<noteq> None
      then st\<lparr>message_store := (message_store st)(session_id := None)\<rparr>
      else st)"

text \<open>The messages of a session, none when the session is absent.\<close>

definition history_of :: "state \<Rightarrow> string \<Rightarrow> message list" where
  "history_of st session_id = (case message_store st session_id of None \<Rightarrow> [] | Some h \<Rightarrow> h)"

subsection \<open>Notions used in the statements and proofs\<close>

definition after_invoke :: "state \<Rightarrow> strategy \<Rightarrow> message list \<Rightarrow> string \<Rightarrow> message list \<Rightarrow> state" where
  "after_invoke st strat p session_id h =
     st\<lparr>message_store := (message_store st)(session_id \<mapsto> h),
        llm_calls := llm_calls st @ [(strat, p)]\<rparr>"

definition normalized :: "string \<Rightarrow> string" where
  "normalized style = (if style \<in> set [''short'', ''detailed''] then style else ''short'')"

definition sanitized :: "StudyAssistantResponse \<Rightarrow> StudyAssistantResponse" where
  "sanitized resp = resp\<lparr>answer := sanitize_answer (answer resp)\<rparr>"

definition derived_note :: "string \<Rightarrow> StudyAssistantResponse \<Rightarrow> document" where
  "derived_note message resp =
     note_document (note_text message (sanitized resp)) (Some ''assistant_session_memory'')"

definition persist :: "env \<Rightarrow> state \<Rightarrow> string \<Rightarrow> StudyAssistantResponse \<Rightarrow> state \<times> (exc + StudyAssistantResponse)" where
  "persist e st message resp =
     (case add_texts_error e (vectorstore st) (derived_note message resp) of
        Some err \<Rightarrow> (st, Inl err)
      | None \<Rightarrow> (st\<lparr>vectorstore := vectorstore st @ [derived_note message resp]\<rparr>, Inr (sanitized resp)))"

definition exchange :: "string \<Rightarrow> StudyAssistantResponse \<Rightarrow> message list" where
  "exchange message resp = [HumanMessage message, AIMessage (answer resp)]"

definition demo_response :: StudyAssistantResponse where
  "demo_response = \<lparr>answer = ''Reasoning: r\<newline>Final'', key_points = [''k1''],
                      suggested_questions = [''q1''], references = []\<rparr>"

definition thinking_response :: StudyAssistantResponse where
  "thinking_response = \<lparr>answer = ''Thoughts: hmm'', key_points = [],
                          suggested_questions = [], references = []\<rparr>"

definition env_ok :: env where
  "env_ok = \<lparr>structured_llm = (\<lambda>strat p. Inr demo_response),
             retriever = (\<lambda>docs query. Inr docs),
             add_texts_error = (\<lambda>docs d. None)\<rparr>"

definition env_store_down :: env where
  "env_store_down = env_ok\<lparr>add_texts_error := (\<lambda>docs d. Some (OtherError ''store is read-only''))\<rparr>"

definition env_json_rejected :: env where
  "env_json_rejected = env_ok\<lparr>structured_llm := (\<lambda>strat p.
      case strat of JsonMode \<Rightarrow> Inl (BadRequestError ''json_validate_failed'')
                  | JsonSchema \<Rightarrow> Inr demo_response)\<rparr>"

definition env_unavailable :: env where
  "env_unavailable = env_ok\<lparr>structured_llm := (\<lambda>strat p. Inl (OtherError ''connection error''))\<rparr>"

definition env_thinking :: env where
  "env_thinking = env_ok\<lparr>structured_llm := (\<lambda>strat p. Inr thinking_response)\<rparr>"

definition empty_state :: state where
  "empty_state = \<lparr>message_store = Map.empty, vectorstore = [], llm_calls = []\<rparr>"

definition env_both_fail :: env where
  "env_both_fail = env_ok\<lparr>structured_llm := (\<lambda>strat p.
      case strat of JsonMode \<Rightarrow> Inl (ValueError ''malformed output'')
                  | JsonSchema \<Rightarrow> Inl (BadRequestError ''schema rejected''))\<rparr>"

definition two_sessions :: state where
  "two_sessions = \<lparr>message_store = [''a'' \<mapsto> [HumanMessage ''hi'', AIMessage ''hello''],
                                      ''b'' \<mapsto> [HumanMessage ''secret'']],
                    vectorstore = [\<lparr>page_content = ''a note'', metadata = None\<rparr>],
                    llm_calls = []\<rparr>"


definition env_retrieval_down :: env where
  "env_retrieval_down = env_ok\<lparr>retriever := (\<lambda>docs query. Inl (OtherError ''store unreachable''))\<rparr>"
lemma lstrip_id: "s = [] \<or> \<not> isspace (hd s) \<Longrightarrow> lstrip s = s"
  by (cases s) (auto simp: lstrip_def)

lemma rstrip_id: "s = [] \<or> \<not> isspace (last s) \<Longrightarrow> rstrip s = s"
  by (cases s rule: rev_cases) (auto simp: rstrip_def)

lemma stripped_strip_id: "stripped s \<Longrightarrow> strip s = s"
  by (cases s) (auto simp: stripped_def strip_def lstrip_id rstrip_id)

lemma rstrip_Nil_or_last: "rstrip s = [] \<or> \<not> isspace (last (rstrip s))"
proof (cases "dropWhile isspace (rev s)")
  case Nil
  then show ?thesis by (simp add: rstrip_def)
next
  case (Cons c cs)
  then have "\<not> isspace c" using hd_dropWhile[of isspace "rev s"] by auto
  with Cons show ?thesis by (simp add: rstrip_def)
qed

lemma rstrip_prefix: "\<exists>w. s = rstrip s @ w"
proof -
  have "rev s = takeWhile isspace (rev s) @ dropWhile isspace (rev s)" by simp
  then have "s = rev (dropWhile isspace (rev s)) @ rev (takeWhile isspace (rev s))"
    by (metis rev_append rev_rev_ident)
  then show ?thesis unfolding rstrip_def by blast
qed

lemma lstrip_suffix: "\<exists>w. s = w @ lstrip s"
  unfolding lstrip_def by (metis takeWhile_dropWhile_id)

lemma strip_infix: "\<exists>a b. s = a @ strip s @ b"
proof -
  obtain w where w: "s = w @ lstrip s" using lstrip_suffix by blast
  obtain v where v: "lstrip s = rstrip (lstrip s) @ v" using rstrip_prefix by blast
  have "s = w @ strip s @ v" unfolding strip_def using w v by metis
  then show ?thesis by blast
qed

lemma hd_rstrip: "rstrip s \<noteq> [] \<Longrightarrow> hd (rstrip s) = hd s"
  using rstrip_prefix[of s] by (metis hd_append2)

lemma lstrip_Nil_or_hd: "lstrip s = [] \<or> \<not> isspace (hd (lstrip s))"
  unfolding lstrip_def using hd_dropWhile[of isspace s] by blast

lemma stripped_strip: "stripped (strip s)"
proof (cases "strip s")
  case Nil
  then show ?thesis by (simp add: stripped_def)
next
  case (Cons c cs)
  then have ne: "rstrip (lstrip s) \<noteq> []" by (simp add: strip_def)
  then have "lstrip s \<noteq> []" by (auto simp: rstrip_def)
  then have "\<not> isspace (hd (lstrip s))" using lstrip_Nil_or_hd by blast
  then have h: "\<not> isspace (hd (strip s))" using hd_rstrip[OF ne] by (simp add: strip_def)
  have l: "\<not> isspace (last (strip s))" using rstrip_Nil_or_last[of "lstrip s"] ne by (simp add: strip_def)
  from h l Cons show ?thesis by (simp add: stripped_def)
qed

lemma length_strip: "length (strip s) \<le> length s"
  using strip_infix[of s] by (metis length_append le_add1 le_add2 le_trans)

lemma strip_eq_iff: "strip s = s \<longleftrightarrow> stripped s"
  using stripped_strip[of s] stripped_strip_id by auto

lemma length_re_sub: "length (re_sub pat b s) \<le> length s"
proof (induction pat b s rule: re_sub.induct)
  case (1 pat at0)
  then show ?case by simp
next
  case (2 pat at0 c cs)
  show ?case
  proof (cases "pat at0 (c # cs)")
    case None
    with 2 show ?thesis by simp
  next
    case (Some r)
    with 2 show ?thesis by (cases "length r < Suc (length cs)") auto
  qed
qed

lemma re_sub_shorter:
  "pat b s = Some r \<Longrightarrow> length r < length s \<Longrightarrow> length (re_sub pat b s) < length s"
  using length_re_sub[of pat False r] by (cases s) auto

lemma re_sub_no_match:
  "\<not> any_suffix (\<lambda>t. pat False t \<noteq> None) s \<Longrightarrow> re_sub pat False s = s"
  by (induction s) auto

lemma re_sub_no_match0:
  "pat b s = None \<Longrightarrow> \<not> any_suffix (\<lambda>t. pat False t \<noteq> None) (tl s) \<Longrightarrow> re_sub pat b s = s"
  by (cases s) (auto simp: re_sub_no_match)

lemma leq_done: "leq_k k done_m" by (simp add: leq_k_def done_m_def)

lemma leq_lit: "leq_k k k' \<Longrightarrow> leq_k (lit_ci p k) (lit_ci p k')"
  unfolding leq_k_def
proof (intro allI)
  fix t assume h: "\<forall>t. k t \<noteq> None \<longrightarrow> k' t \<noteq> None"
  show "lit_ci p k t \<noteq> None \<longrightarrow> lit_ci p k' t \<noteq> None"
    using h by (induction p k t rule: lit_ci.induct) auto
qed

lemma leq_one_of: "leq_k k k' \<Longrightarrow> leq_k (one_of cls k) (one_of cls k')"
  by (auto simp: leq_k_def one_of_def split: list.splits)

lemma leq_orelse:
  "leq_k a a' \<Longrightarrow> leq_k b b' \<Longrightarrow> leq_k (\<lambda>s. orelse (a s) (b s)) (\<lambda>s. orelse (a' s) (b' s))"
  by (auto simp: leq_k_def orelse_def split: option.splits)

lemma leq_opt: "leq_k (m k) (m k') \<Longrightarrow> leq_k k k' \<Longrightarrow> leq_k (opt m k) (opt m k')"
  by (auto simp: leq_k_def opt_def orelse_def split: option.splits)

lemma leq_alt: "leq_k (a k) (a k') \<Longrightarrow> leq_k (b k) (b k') \<Longrightarrow> leq_k (alt a b k) (alt a b k')"
  by (auto simp: leq_k_def alt_def orelse_def split: option.splits)

lemma leq_bol: "leq_k (bol b k) k"
  by (auto simp: leq_k_def bol_def)

lemma leq_trans: "leq_k a b \<Longrightarrow> leq_k b c \<Longrightarrow> leq_k a c"
  by (auto simp: leq_k_def)

lemma leq_fence_label: "leq_k k k' \<Longrightarrow> leq_k (fence_label k) (fence_label k')"
  unfolding fence_label_def
  by (intro leq_alt leq_lit leq_opt leq_one_of)

lemma mono_done: "mono_k done_m" by (simp add: mono_k_def done_m_def)

lemma mono_lit: "mono_k k \<Longrightarrow> mono_k (lit_ci p k)"
  unfolding mono_k_def
proof (intro allI)
  fix s w assume h: "\<forall>s w. k s \<noteq> None \<longrightarrow> k (s @ w) \<noteq> None"
  show "lit_ci p k s \<noteq> None \<longrightarrow> lit_ci p k (s @ w) \<noteq> None"
    using h by (induction p k s rule: lit_ci.induct) auto
qed

lemma mono_one_of: "mono_k k \<Longrightarrow> mono_k (one_of cls k)"
  by (auto simp: mono_k_def one_of_def split: list.splits)

lemma mono_orelse:
  "mono_k a \<Longrightarrow> mono_k b \<Longrightarrow> mono_k (\<lambda>s. orelse (a s) (b s))"
proof -
  assume a: "mono_k a" and b: "mono_k b"
  have "orelse (a s) (b s) \<noteq> None \<Longrightarrow> orelse (a (s @ w)) (b (s @ w)) \<noteq> None" for s w
  proof (cases "a s")
    case None
    assume "orelse (a s) (b s) \<noteq> None"
    with None have "b s \<noteq> None" by (simp add: orelse_def)
    with b have "b (s @ w) \<noteq> None" by (simp add: mono_k_def)
    then show ?thesis by (simp add: orelse_def split: option.splits)
  next
    case (Some r)
    with a have "a (s @ w) \<noteq> None" by (simp add: mono_k_def)
    then show ?thesis by (auto simp: orelse_def split: option.splits)
  qed
  then show ?thesis unfolding mono_k_def by blast
qed

lemma mono_opt: "mono_k (m k) \<Longrightarrow> mono_k k \<Longrightarrow> mono_k (opt m k)"
  using mono_orelse[of "m k" k] by (simp add: opt_def[abs_def])

lemma mono_alt: "mono_k (a k) \<Longrightarrow> mono_k (b k) \<Longrightarrow> mono_k (alt a b k)"
  using mono_orelse[of "a k" "b k"] by (simp add: alt_def[abs_def])

lemma mono_fence_label: "mono_k k \<Longrightarrow> mono_k (fence_label k)"
  unfolding fence_label_def
  by (intro mono_alt mono_lit mono_opt mono_one_of)

lemma short_done: "short_k 0 done_m" by (simp add: short_k_def done_m_def)

lemma short_lit: "short_k n k \<Longrightarrow> short_k (n + length p) (lit_ci p k)"
  unfolding short_k_def
proof (intro allI)
  fix s r assume h: "\<forall>s r. k s = Some r \<longrightarrow> length r + n \<le> length s"
  show "lit_ci p k s = Some r \<longrightarrow> length r + (n + length p) \<le> length s"
    using h by (induction p k s rule: lit_ci.induct) (auto split: if_splits)
qed

lemma short_weaken: "short_k n k \<Longrightarrow> m \<le> n \<Longrightarrow> short_k m k"
  by (fastforce simp: short_k_def)

lemma short_one_of: "short_k n k \<Longrightarrow> short_k n (one_of cls k)"
  by (fastforce simp: short_k_def one_of_def split: list.splits if_splits)

lemma short_opt: "short_k n (m k) \<Longrightarrow> short_k n k \<Longrightarrow> short_k n (opt m k)"
  by (auto simp: short_k_def opt_def orelse_def split: option.splits)

lemma short_alt: "short_k n (a k) \<Longrightarrow> short_k n (b k) \<Longrightarrow> short_k n (alt a b k)"
  by (auto simp: short_k_def alt_def orelse_def split: option.splits)

lemma short_eos: "short_k n k \<Longrightarrow> short_k n (eos k)"
  by (auto simp: short_k_def eos_def split: if_splits)

lemma short_bol: "short_k n k \<Longrightarrow> short_k n (bol b k)"
  by (auto simp: short_k_def bol_def split: if_splits)

lemma short_lazy_star: "short_k n k \<Longrightarrow> short_k n (lazy_star P k)"
  unfolding short_k_def
proof (intro allI)
  fix s r assume h: "\<forall>s r. k s = Some r \<longrightarrow> length r + n \<le> length s"
  show "lazy_star P k s = Some r \<longrightarrow> length r + n \<le> length s"
  proof (induction s)
    case Nil
    show ?case using h[rule_format, of "[]" r] by simp
  next
    case (Cons c cs)
    show ?case
    proof (cases "k (c # cs)")
      case None
      then show ?thesis using Cons by (auto split: if_splits)
    next
      case (Some a)
      then show ?thesis using h[rule_format, of "c # cs" a] by auto
    qed
  qed
qed

lemma short_eol: "short_k 0 (lazy_star dot (alt (lit_ci [CHR 0x0A]) eos done_m))"
  by (intro short_lazy_star short_alt short_eos short_done short_weaken[OF short_lit[OF short_done]]) simp

lemma short_fence_label: "short_k n k \<Longrightarrow> short_k n (fence_label k)"
  unfolding fence_label_def
  by (intro short_alt short_opt short_one_of short_weaken[OF short_lit[of n]]) simp_all

lemma short_pat_thoughts: "short_k 1 (pat_thoughts b)"
  unfolding pat_thoughts_def
  by (intro short_bol short_weaken[OF short_lit[of 1 _ "''thought''"]] short_opt
        short_weaken[OF short_lit[of 1 _ "''s''"]] short_weaken[OF short_lit[OF short_eol, of "'':''"]]) simp_all

lemma short_pat_reasoning: "short_k 1 (pat_reasoning b)"
  unfolding pat_reasoning_def
  by (intro short_bol short_weaken[OF short_lit[OF short_eol]]) simp

lemma short_pat_analysis: "short_k 1 (pat_analysis b)"
  unfolding pat_analysis_def
  by (intro short_bol short_weaken[OF short_lit[OF short_eol]]) simp

lemma short_pat_fence: "short_k 1 (pat_fence b)"
  unfolding pat_fence_def
  by (intro short_weaken[OF short_lit[of 1 _ "''```''"]] short_fence_label
       short_lazy_star short_weaken[OF short_lit[OF short_done, of "''```''"]]) simp_all

lemma anchored_pats: "anchored pat_thoughts" "anchored pat_reasoning" "anchored pat_analysis"
  by (simp_all add: anchored_def pat_thoughts_def pat_reasoning_def pat_analysis_def bol_def)

lemma pat_fence_at0: "pat_fence b = pat_fence False"
  by (simp add: pat_fence_def)

lemma anchored_no_suffix: "anchored pat \<Longrightarrow> \<not> any_suffix (\<lambda>t. pat False t \<noteq> None) s"
  by (induction s) (auto simp: anchored_def)

lemma re_sub_anchored_None: "anchored pat \<Longrightarrow> pat True s = None \<Longrightarrow> re_sub pat True s = s"
  using anchored_no_suffix[of pat "tl s"] by (intro re_sub_no_match0)

lemma step_anchored_id:
  "anchored pat \<Longrightarrow> pat True s = None \<Longrightarrow> stripped s \<Longrightarrow> sanitize_step pat s = s"
  by (simp add: sanitize_step_def re_sub_anchored_None stripped_strip_id)

lemma step_fence_id: "\<not> has_fence s \<Longrightarrow> stripped s \<Longrightarrow> sanitize_step pat_fence s = s"
proof -
  assume a: "\<not> has_fence s" and b: "stripped s"
  have "re_sub pat_fence False s = s" using a unfolding has_fence_def by (rule re_sub_no_match)
  moreover have "re_sub pat_fence True s = re_sub pat_fence False s"
    by (cases s) (simp_all add: pat_fence_at0[of True])
  ultimately show ?thesis using b by (simp add: sanitize_step_def stripped_strip_id)
qed

lemma sanitize_unfold:
  "sanitize_answer x = sanitize_step pat_fence (sanitize_step pat_analysis
       (sanitize_step pat_reasoning (sanitize_step pat_thoughts x)))"
  by (simp add: sanitize_answer_def patterns_def)

lemma sanitize_clean_id: "stripped y \<Longrightarrow> clean y \<Longrightarrow> sanitize_answer y = y"
  by (simp add: sanitize_unfold clean_def starts_marker_def step_anchored_id anchored_pats step_fence_id)

lemma stripped_sanitize: "stripped (sanitize_answer x)"
  by (simp add: sanitize_unfold sanitize_step_def[of pat_fence] stripped_strip)

lemma length_step: "length (sanitize_step pat s) \<le> length s"
  unfolding sanitize_step_def using length_strip[of "re_sub pat True s"] length_re_sub[of pat True s]
  by linarith

lemma strip_same_length: "length (strip u) = length u \<Longrightarrow> strip u = u"
proof -
  assume l: "length (strip u) = length u"
  obtain a b where ab: "u = a @ strip u @ b" using strip_infix by blast
  then have "length u = length a + length (strip u) + length b" by (metis length_append add.assoc)
  with l have "a = []" "b = []" by auto
  with ab show ?thesis by simp
qed

lemma re_sub_same_length_match:
  "short_k 1 (pat b) \<Longrightarrow> length (re_sub pat b s) = length s \<Longrightarrow> pat b s = None"
proof (cases "pat b s")
  case None
  then show ?thesis by simp
next
  case (Some r)
  assume sh: "short_k 1 (pat b)" and l: "length (re_sub pat b s) = length s"
  from sh Some have "length r < length s" by (fastforce simp: short_k_def)
  from re_sub_shorter[of pat b s r, OF Some this] l show ?thesis by simp
qed

lemma re_sub_has_match_shorter:
  "short_k 1 (pat False) \<Longrightarrow> any_suffix (\<lambda>t. pat False t \<noteq> None) s
     \<Longrightarrow> length (re_sub pat False s) < length s"
proof (induction s)
  case Nil
  then show ?case by (fastforce simp: short_k_def)
next
  case (Cons c cs)
  show ?case
  proof (cases "pat False (c # cs)")
    case None
    with Cons show ?thesis by auto
  next
    case (Some r)
    with Cons.prems(1) have "length r < length (c # cs)" by (fastforce simp: short_k_def)
    from re_sub_shorter[of pat False "c # cs" r, OF Some this] show ?thesis .
  qed
qed

lemma re_sub_same_length: "length (re_sub pat b s) = length s \<Longrightarrow> re_sub pat b s = s"
proof (induction pat b s rule: re_sub.induct)
  case (1 pat at0)
  then show ?case by simp
next
  case (2 pat at0 c cs)
  show ?case
  proof (cases "pat at0 (c # cs)")
    case None
    with 2 show ?thesis by simp
  next
    case (Some r)
    show ?thesis
    proof (cases "length r < Suc (length cs)")
      case True
      have "length (re_sub pat False r) \<le> length r" by (rule length_re_sub)
      with True Some "2.prems" show ?thesis by simp
    next
      case False
      with Some 2 show ?thesis by simp
    qed
  qed
qed

lemma step_same_length:
  assumes "length (sanitize_step pat s) = length s"
  shows "stripped s \<and> re_sub pat True s = s"
proof -
  have 1: "length (strip (re_sub pat True s)) \<le> length (re_sub pat True s)" by (rule length_strip)
  have 2: "length (re_sub pat True s) \<le> length s" by (rule length_re_sub)
  from assms 1 2 have e1: "length (strip (re_sub pat True s)) = length (re_sub pat True s)"
    and e2: "length (re_sub pat True s) = length s" by (simp_all add: sanitize_step_def)
  have 3: "strip (re_sub pat True s) = re_sub pat True s" using e1 by (rule strip_same_length)
  have 4: "re_sub pat True s = s" using e2 by (rule re_sub_same_length)
  from 3 4 show ?thesis by (simp add: strip_eq_iff)
qed

lemma sanitize_id_clean:
  assumes "sanitize_answer y = y"
  shows "stripped y \<and> clean y"
proof -
  define y1 where "y1 = sanitize_step pat_thoughts y"
  define y2 where "y2 = sanitize_step pat_reasoning y1"
  define y3 where "y3 = sanitize_step pat_analysis y2"
  have y4: "sanitize_step pat_fence y3 = y"
    using assms by (simp add: sanitize_unfold y1_def y2_def y3_def)
  have l1: "length y1 \<le> length y" unfolding y1_def by (rule length_step)
  have l2: "length y2 \<le> length y1" unfolding y2_def by (rule length_step)
  have l3: "length y3 \<le> length y2" unfolding y3_def by (rule length_step)
  have l4: "length y \<le> length y3" using length_step[of pat_fence y3] y4 by simp
  have s1: "stripped y \<and> re_sub pat_thoughts True y = y"
    using l1 l2 l3 l4 by (intro step_same_length) (simp add: y1_def)
  then have e1: "y1 = y" by (simp add: y1_def sanitize_step_def stripped_strip_id)
  have s2: "re_sub pat_reasoning True y = y"
    using l1 l2 l3 l4 step_same_length[of pat_reasoning y1] by (simp add: y2_def e1)
  then have e2: "y2 = y" using s1 by (simp add: y2_def e1 sanitize_step_def stripped_strip_id)
  have s3: "re_sub pat_analysis True y = y"
    using l1 l2 l3 l4 step_same_length[of pat_analysis y2] by (simp add: y3_def e2)
  then have e3: "y3 = y" using s1 by (simp add: y3_def e2 sanitize_step_def stripped_strip_id)
  have s4: "re_sub pat_fence True y = y"
    using step_same_length[of pat_fence y] y4 by (simp add: e3)
  have m1: "pat_thoughts True y = None"
    using s1 by (intro re_sub_same_length_match short_pat_thoughts) simp
  have m2: "pat_reasoning True y = None"
    using s2 by (intro re_sub_same_length_match short_pat_reasoning) simp
  have m3: "pat_analysis True y = None"
    using s3 by (intro re_sub_same_length_match short_pat_analysis) simp
  have m4: "\<not> has_fence y"
  proof
    assume "has_fence y"
    then have "length (re_sub pat_fence False y) < length y"
      unfolding has_fence_def by (intro re_sub_has_match_shorter short_pat_fence)
    moreover have "re_sub pat_fence True y = re_sub pat_fence False y"
      by (cases y) (simp_all add: pat_fence_at0[of True])
    ultimately show False using s4 by simp
  qed
  from s1 m1 m2 m3 m4 show ?thesis by (simp add: clean_def starts_marker_def)
qed

lemma sanitize_idem_iff:
  "sanitize_answer (sanitize_answer x) = sanitize_answer x \<longleftrightarrow> clean (sanitize_answer x)"
  using sanitize_id_clean[of "sanitize_answer x"] sanitize_clean_id[OF stripped_sanitize, of x]
  by blast

lemma leq_heads:
  "leq_k (pat_thoughts b) head_thoughts" "leq_k (pat_reasoning b) head_reasoning"
  "leq_k (pat_analysis b) head_analysis" "leq_k (pat_fence b) head_fence"
  unfolding pat_thoughts_def pat_reasoning_def pat_analysis_def pat_fence_def
    head_thoughts_def head_reasoning_def head_analysis_def head_fence_def
  by (intro leq_trans[OF leq_bol] leq_lit leq_opt leq_done leq_fence_label)+

lemma mono_heads:
  "mono_k head_thoughts" "mono_k head_reasoning" "mono_k head_analysis" "mono_k head_fence"
  unfolding head_thoughts_def head_reasoning_def head_analysis_def head_fence_def
  by (intro mono_lit mono_opt mono_done mono_fence_label)+

lemma marker_at_append: "marker_at t \<Longrightarrow> marker_at (t @ w)"
  using mono_heads unfolding marker_at_def mono_k_def by blast

lemma starts_marker_at: "starts_marker t \<Longrightarrow> marker_at t"
  using leq_heads[of True] unfolding starts_marker_def marker_at_def leq_k_def by blast

lemma fence_marker_at: "pat_fence b t \<noteq> None \<Longrightarrow> marker_at t"
  using leq_heads(4)[of b] unfolding marker_at_def leq_k_def by blast

lemma any_suffix_self: "P s \<Longrightarrow> any_suffix P s"
  by (cases s) auto

lemma any_suffix_mono: "(\<And>t. P t \<Longrightarrow> Q t) \<Longrightarrow> any_suffix P s \<Longrightarrow> any_suffix Q s"
  by (induction s) auto

lemma any_suffix_prepend: "any_suffix P s \<Longrightarrow> any_suffix P (a @ s)"
  by (induction a) auto

lemma any_suffix_append:
  "(\<And>t w. P t \<Longrightarrow> P (t @ w)) \<Longrightarrow> any_suffix P s \<Longrightarrow> any_suffix P (s @ b)"
proof (induction s)
  case Nil
  then have "P ([] @ b)" by (metis any_suffix.simps(1))
  then show ?case by (simp add: any_suffix_self)
next
  case (Cons c cs)
  then show ?case using Cons.prems(1)[of "c # cs" b] by auto
qed

lemma contains_marker_infix: "contains_marker y \<Longrightarrow> contains_marker (a @ y @ b)"
  unfolding contains_marker_def
  by (intro any_suffix_prepend any_suffix_append marker_at_append)

lemma no_marker_clean: "\<not> contains_marker y \<Longrightarrow> clean y"
proof -
  assume n: "\<not> contains_marker y"
  have "\<not> starts_marker y"
    using n starts_marker_at[of y] any_suffix_self[of marker_at y] by (auto simp: contains_marker_def)
  moreover have "\<not> has_fence y"
    using n any_suffix_mono[of "\<lambda>t. pat_fence False t \<noteq> None" marker_at y] fence_marker_at
    unfolding has_fence_def contains_marker_def by blast
  ultimately show ?thesis by (simp add: clean_def)
qed

lemma sanitize_no_marker:
  assumes "\<not> contains_marker x"
  shows "sanitize_answer x = strip x"
proof -
  obtain a b where ab: "x = a @ strip x @ b" using strip_infix by blast
  have ny: "\<not> contains_marker (strip x)"
    using assms contains_marker_infix[of "strip x" a b] ab by auto
  have cy: "clean (strip x)" using ny by (rule no_marker_clean)
  have sy: "stripped (strip x)" by (rule stripped_strip)
  have "clean x" using assms by (rule no_marker_clean)
  then have "pat_thoughts True x = None" by (simp add: clean_def starts_marker_def)
  then have 1: "sanitize_step pat_thoughts x = strip x"
    by (simp add: sanitize_step_def re_sub_anchored_None anchored_pats)
  have 2: "sanitize_step pat_thoughts (strip x) = strip x"
    using cy sy by (simp add: clean_def starts_marker_def step_anchored_id anchored_pats)
  have "sanitize_answer x = sanitize_answer (strip x)"
    by (simp add: sanitize_unfold 1 2)
  also have "\<dots> = strip x" using sy cy by (rule sanitize_clean_id)
  finally show ?thesis .
qed

lemma lower_cases: "lower c = c \<or> (c, lower c) \<in> set (zip ''ABCDEFGHIJKLMNOPQRSTUVWXYZ'' ''abcdefghijklmnopqrstuvwxyz'')"
  unfolding lower_def by (auto split: option.splits dest: map_of_SomeD)

lemma lower_pat_chars [simp]:
  "lower CHR ''t'' = CHR ''t''" "lower CHR ''h'' = CHR ''h''" "lower CHR ''o'' = CHR ''o''"
  "lower CHR ''u'' = CHR ''u''" "lower CHR ''g'' = CHR ''g''" "lower CHR ''s'' = CHR ''s''"
  "lower CHR ''r'' = CHR ''r''" "lower CHR ''e'' = CHR ''e''" "lower CHR ''a'' = CHR ''a''"
  "lower CHR ''n'' = CHR ''n''" "lower CHR ''i'' = CHR ''i''" "lower CHR ''l'' = CHR ''l''"
  "lower CHR ''y'' = CHR ''y''" "lower CHR ''c'' = CHR ''c''" "lower CHR ''f'' = CHR ''f''"
  "lower CHR '':'' = CHR '':''" "lower CHR ''-'' = CHR ''-''" "lower CHR '' '' = CHR '' ''"
  "lower CHR 0x60 = CHR 0x60" "lower CHR 0x0A = CHR 0x0A"
  by (simp_all add: lower_def)

lemma lower_eq_sym [simp]:
  "lower c = CHR '':'' \<longleftrightarrow> c = CHR '':''" "lower c = CHR ''-'' \<longleftrightarrow> c = CHR ''-''"
  "lower c = CHR '' '' \<longleftrightarrow> c = CHR '' ''" "lower c = CHR 0x60 \<longleftrightarrow> c = CHR 0x60"
  "lower c = CHR 0x0A \<longleftrightarrow> c = CHR 0x0A"
  using lower_cases[of c] by auto

lemma isspace_lower: "isspace c \<Longrightarrow> lower c = c"
proof -
  assume "isspace c"
  then have "c = CHR 0x09 \<or> c = CHR 0x0A \<or> c = CHR 0x0B \<or> c = CHR 0x0C \<or> c = CHR 0x0D
      \<or> c = CHR 0x1C \<or> c = CHR 0x1D \<or> c = CHR 0x1E \<or> c = CHR 0x1F \<or> c = CHR 0x20
      \<or> c = CHR 0x85 \<or> c = CHR 0xA0"
    by (simp add: isspace_def)
  then show ?thesis by (elim disjE) (simp_all add: lower_def)
qed

lemma lower_letter_not_space:
  "lower c = CHR ''t'' \<or> lower c = CHR ''r'' \<or> lower c = CHR ''a'' \<Longrightarrow> \<not> isspace c"
proof
  assume h: "lower c = CHR ''t'' \<or> lower c = CHR ''r'' \<or> lower c = CHR ''a''" and sp: "isspace c"
  have "lower c = c" using sp by (rule isspace_lower)
  with h have "c = CHR ''t'' \<or> c = CHR ''r'' \<or> c = CHR ''a''" by simp
  with sp show False by (auto simp: isspace_def)
qed

lemma lit_ci_exact: "map lower m = map lower p \<Longrightarrow> lit_ci p k (m @ s) = k s"
proof (induction p arbitrary: m)
  case Nil
  then show ?case by simp
next
  case (Cons a p)
  then obtain c m' where "m = c # m'" "lower c = lower a" "map lower m' = map lower p"
    by (auto simp: map_eq_Cons_conv)
  with Cons.IH[of m'] show ?case by simp
qed

lemma eol_here: "alt (lit_ci [CHR 0x0A]) eos done_m (CHR 0x0A # r) = Some r"
  by (simp add: alt_def orelse_def done_m_def)

lemma eol_not_here:
  "c \<noteq> CHR 0x0A \<Longrightarrow> alt (lit_ci [CHR 0x0A]) eos done_m (c # cs) = None"
  by (simp add: alt_def orelse_def eos_def)

lemma to_eol: "CHR 0x0A \<notin> set l \<Longrightarrow>
    lazy_star dot (alt (lit_ci [CHR 0x0A]) eos done_m) (l @ CHR 0x0A # r) = Some r"
proof (induction l)
  case Nil
  then show ?case by (simp add: eol_here)
next
  case (Cons c l)
  then have "c \<noteq> CHR 0x0A" by auto
  with Cons show ?case by (simp add: eol_not_here dot_def)
qed

lemma fence_close_here: "lit_ci ''```'' done_m (''```'' @ b) = Some b"
  by (simp add: done_m_def)

lemma fence_close_not_here: "c \<noteq> CHR 0x60 \<Longrightarrow> lit_ci ''```'' k (c # cs) = None"
  by simp

lemma to_fence: "CHR 0x60 \<notin> set body \<Longrightarrow>
    lazy_star space_or_not (lit_ci ''```'' done_m) (body @ ''```'' @ b) = Some b"
proof (induction body)
  case Nil
  have "lazy_star space_or_not (lit_ci ''```'' done_m) (CHR 0x60 # ''``'' @ b) = Some b"
    unfolding lazy_star.simps using fence_close_here[of b] by simp
  then show ?case by simp
next
  case (Cons c body)
  then have "c \<noteq> CHR 0x60" by auto
  with Cons show ?case
    by (simp add: fence_close_not_here space_or_not_def del: lit_ci.simps)
qed

lemma stripped_ends: "stripped r \<Longrightarrow> r \<noteq> [] \<Longrightarrow> \<not> isspace (hd r) \<and> \<not> isspace (last r)"
  by (cases r) (auto simp: stripped_def)

lemma strippedI: "t \<noteq> [] \<Longrightarrow> \<not> isspace (hd t) \<Longrightarrow> \<not> isspace (last t) \<Longrightarrow> stripped t"
  by (cases t) (auto simp: stripped_def)

lemma leading_step:
  assumes "anchored pat" "pat True t = Some r" "length r < length t" "stripped r"
  shows "sanitize_step pat t = r"
proof -
  obtain c cs where t: "t = c # cs" using assms(3) by (cases t) auto
  have "re_sub pat False r = r" using anchored_no_suffix[OF assms(1)] by (rule re_sub_no_match)
  then have "re_sub pat True t = r" using assms(2,3) by (simp add: t)
  then show ?thesis using assms(4) by (simp add: sanitize_step_def stripped_strip_id)
qed

lemma clean_steps:
  assumes "stripped r" "clean r"
  shows "sanitize_step pat_thoughts r = r" "sanitize_step pat_reasoning r = r"
    "sanitize_step pat_analysis r = r" "sanitize_step pat_fence r = r"
  using assms
  by (simp_all add: clean_def starts_marker_def step_anchored_id anchored_pats step_fence_id)

lemma match_thought:
  assumes "map lower m = ''thought:'' \<or> map lower m = ''thoughts:''"
  shows "pat_thoughts True (m @ s) = lazy_star dot (alt (lit_ci [CHR 0x0A]) eos done_m) s"
proof -
  let ?K = "lazy_star dot (alt (lit_ci [CHR 0x0A]) eos done_m)"
  from assms show ?thesis
  proof
    assume "map lower m = ''thought:''"
    then have "map lower (take 7 m) = ''thought''" "map lower (drop 7 m) = '':''"
      by (simp_all flip: take_map drop_map)
    then obtain m1 m2 where m: "m = m1 @ m2" "map lower m1 = ''thought''" "map lower m2 = '':''"
      using append_take_drop_id[of 7 m] by metis
    then have m2: "m2 = '':''" by (simp add: map_eq_Cons_conv)
    have "lit_ci ''thought'' (opt (lit_ci ''s'') (lit_ci '':'' ?K)) (m1 @ (m2 @ s))
          = opt (lit_ci ''s'') (lit_ci '':'' ?K) (m2 @ s)"
      by (rule lit_ci_exact) (simp add: m)
    then show ?thesis by (simp add: pat_thoughts_def bol_def m m2 opt_def orelse_def)
  next
    assume "map lower m = ''thoughts:''"
    then have "map lower (take 7 m) = ''thought''" "map lower (drop 7 m) = ''s:''"
      by (simp_all flip: take_map drop_map)
    then obtain m1 m2 where m: "m = m1 @ m2" "map lower m1 = ''thought''" "map lower m2 = ''s:''"
      using append_take_drop_id[of 7 m] by metis
    then obtain c where m2: "m2 = [c, CHR '':'']" "lower c = CHR ''s''"
      by (auto simp: map_eq_Cons_conv)
    have "lit_ci ''thought'' (opt (lit_ci ''s'') (lit_ci '':'' ?K)) (m1 @ (m2 @ s))
          = opt (lit_ci ''s'') (lit_ci '':'' ?K) (m2 @ s)"
      by (rule lit_ci_exact) (simp add: m)
    then show ?thesis
      by (cases "?K s") (simp_all add: pat_thoughts_def bol_def m m2 opt_def orelse_def)
  qed
qed

lemma match_reasoning:
  assumes "map lower m = ''reasoning:''"
  shows "pat_reasoning True (m @ s) = lazy_star dot (alt (lit_ci [CHR 0x0A]) eos done_m) s"
    and "pat_thoughts True (m @ s) = None"
proof -
  show "pat_reasoning True (m @ s) = lazy_star dot (alt (lit_ci [CHR 0x0A]) eos done_m) s"
    unfolding pat_reasoning_def bol_def using assms by (simp add: lit_ci_exact)
  from assms obtain c m' where "m = c # m'" "lower c = CHR ''r''" by (auto simp: map_eq_Cons_conv)
  then show "pat_thoughts True (m @ s) = None" by (simp add: pat_thoughts_def bol_def)
qed

lemma match_analysis:
  assumes "map lower m = ''analysis:''"
  shows "pat_analysis True (m @ s) = lazy_star dot (alt (lit_ci [CHR 0x0A]) eos done_m) s"
    and "pat_thoughts True (m @ s) = None" and "pat_reasoning True (m @ s) = None"
proof -
  show "pat_analysis True (m @ s) = lazy_star dot (alt (lit_ci [CHR 0x0A]) eos done_m) s"
    unfolding pat_analysis_def bol_def using assms by (simp add: lit_ci_exact)
  from assms obtain c m' where m: "m = c # m'" "lower c = CHR ''a''" by (auto simp: map_eq_Cons_conv)
  then show "pat_thoughts True (m @ s) = None" by (simp add: pat_thoughts_def bol_def)
  from m show "pat_reasoning True (m @ s) = None" by (simp add: pat_reasoning_def bol_def)
qed

lemma marker_hd: "is_marker m \<Longrightarrow> m \<noteq> [] \<and> \<not> isspace (hd m)"
  unfolding is_marker_def line_markers_def
  using lower_letter_not_space by (auto simp: map_eq_Cons_conv)

lemma first_line_removed:
  assumes m: "is_marker m" and l: "CHR 0x0A \<notin> set l"
    and r: "r \<noteq> []" "stripped r" "clean r"
  shows "sanitize_answer (m @ l @ CHR 0x0A # r) = r"
proof -
  let ?t = "m @ l @ CHR 0x0A # r"
  let ?K = "lazy_star dot (alt (lit_ci [CHR 0x0A]) eos done_m)"
  have K: "?K (l @ CHR 0x0A # r) = Some r" using l by (rule to_eol)
  have len: "length r < length ?t" by simp
  have "hd ?t = hd m" using marker_hd[OF m] by simp
  moreover have "last ?t = last r" using r(1) by simp
  ultimately have st: "stripped ?t"
    using marker_hd[OF m] stripped_ends[OF r(2) r(1)] by (intro strippedI) auto
  note cs = clean_steps[OF r(2) r(3)]
  consider "map lower m = ''thought:'' \<or> map lower m = ''thoughts:''"
    | "map lower m = ''reasoning:''" | "map lower m = ''analysis:''"
    using m by (auto simp: is_marker_def line_markers_def)
  then show ?thesis
  proof cases
    case 1
    have "pat_thoughts True ?t = Some r" using match_thought[OF 1, of "l @ CHR 0x0A # r"] K by simp
    then have "sanitize_step pat_thoughts ?t = r"
      using len r(2) by (intro leading_step anchored_pats)
    then show ?thesis by (simp add: sanitize_unfold cs)
  next
    case 2
    have 1: "sanitize_step pat_thoughts ?t = ?t"
      using match_reasoning(2)[OF 2] st by (intro step_anchored_id anchored_pats)
    have "pat_reasoning True ?t = Some r" using match_reasoning(1)[OF 2, of "l @ CHR 0x0A # r"] K by simp
    then have "sanitize_step pat_reasoning ?t = r"
      using len r(2) by (intro leading_step anchored_pats)
    then show ?thesis by (simp add: sanitize_unfold 1 cs)
  next
    case 3
    have 1: "sanitize_step pat_thoughts ?t = ?t"
      using match_analysis(2)[OF 3] st by (intro step_anchored_id anchored_pats)
    have 2: "sanitize_step pat_reasoning ?t = ?t"
      using match_analysis(3)[OF 3] st by (intro step_anchored_id anchored_pats)
    have "pat_analysis True ?t = Some r" using match_analysis(1)[OF 3, of "l @ CHR 0x0A # r"] K by simp
    then have "sanitize_step pat_analysis ?t = r"
      using len r(2) by (intro leading_step anchored_pats)
    then show ?thesis by (simp add: sanitize_unfold 1 2 cs)
  qed
qed
lemma map_lower_appendE:
  assumes "map lower m = p @ q"
  obtains m1 m2 where "m = m1 @ m2" "map lower m1 = p" "map lower m2 = q"
proof -
  have "m = take (length p) m @ drop (length p) m" by simp
  moreover have "map lower (take (length p) m) = p"
    using assms by (simp flip: take_map)
  moreover have "map lower (drop (length p) m) = q"
    using assms by (simp flip: drop_map)
  ultimately show ?thesis by (rule that)
qed

lemma sep_lower: "s \<in> set seps \<Longrightarrow> map lower p = s \<Longrightarrow> p = s"
  by (auto simp: seps_def map_eq_Cons_conv)

lemma chain_sep:
  assumes "s1 \<in> set seps" "k s = Some r" "s \<noteq> []" "hd s \<notin> set ''- ''"
  shows "opt (one_of ''- '') k (s1 @ s) = Some r"
proof -
  obtain c cs where s: "s = c # cs" using assms(3) by (cases s) auto
  from assms(1) consider "s1 = []" | "s1 = ''-''" | "s1 = '' ''" by (auto simp: seps_def)
  then show ?thesis
  proof cases
    case 1
    then show ?thesis using assms(2,4) by (simp add: opt_def one_of_def orelse_def s)
  next
    case 2
    then show ?thesis using assms(2) by (simp add: opt_def one_of_def orelse_def)
  next
    case 3
    then show ?thesis using assms(2) by (simp add: opt_def one_of_def orelse_def)
  qed
qed

lemma lower_hd_not_sep:
  "map lower l = p \<Longrightarrow> p \<noteq> [] \<Longrightarrow> hd p \<notin> set ''- '' \<Longrightarrow> (l @ s) \<noteq> [] \<and> hd (l @ s) \<notin> set ''- ''"
  by (cases l) auto

lemma label_match:
  assumes "is_label lab" "k s = Some r"
  shows "fence_label k (lab @ s) = Some r"
proof -
  from assms(1) consider "map lower lab = ''thought''" | "map lower lab = ''analysis''"
    | s1 s2 where "s1 \<in> set seps" "s2 \<in> set seps"
        "map lower lab = ''chain'' @ s1 @ ''of'' @ s2 @ ''thought''"
    unfolding is_label_def fence_labels_def by auto
  then show ?thesis
  proof cases
    case 1
    then have "lit_ci ''thought'' k (lab @ s) = k s" by (intro lit_ci_exact) simp
    then show ?thesis using assms(2) by (simp add: fence_label_def alt_def orelse_def)
  next
    case 2
    then obtain c l' where l: "lab = c # l'" "lower c = CHR ''a''" by (auto simp: map_eq_Cons_conv)
    have an: "lit_ci ''analysis'' k (lab @ s) = Some r"
      using 2 assms(2) by (simp add: lit_ci_exact)
    have th: "lit_ci ''thought'' k (lab @ s) = None" using l by simp
    have ch: "lit_ci ''chain'' k' (lab @ s) = None" for k' using l by simp
    show ?thesis unfolding fence_label_def alt_def using an th ch by (simp add: orelse_def)
  next
    case 3
    from 3(3) obtain l1 q1 where
      a: "lab = l1 @ q1" "map lower l1 = ''chain''" "map lower q1 = s1 @ ''of'' @ s2 @ ''thought''"
      by (rule map_lower_appendE)
    from a(3) obtain p1 q2 where
      b: "q1 = p1 @ q2" "map lower p1 = s1" "map lower q2 = ''of'' @ s2 @ ''thought''"
      by (rule map_lower_appendE)
    from b(3) obtain l2 q3 where
      c: "q2 = l2 @ q3" "map lower l2 = ''of''" "map lower q3 = s2 @ ''thought''"
      by (rule map_lower_appendE)
    from c(3) obtain p2 l3 where
      d: "q3 = p2 @ l3" "map lower p2 = s2" "map lower l3 = ''thought''"
      by (rule map_lower_appendE)
    have p1: "p1 = s1" using 3(1) b(2) by (rule sep_lower)
    have p2: "p2 = s2" using 3(2) d(2) by (rule sep_lower)
    let ?K2 = "lit_ci ''thought'' k"
    let ?K1 = "lit_ci ''of'' (opt (one_of ''- '') ?K2)"
    have k2: "?K2 (l3 @ s) = Some r" using d(3) assms(2) by (simp add: lit_ci_exact)
    have h3: "(l3 @ s) \<noteq> [] \<and> hd (l3 @ s) \<notin> set ''- ''"
      using d(3) by (cases l3) auto
    have o2: "opt (one_of ''- '') ?K2 (s2 @ (l3 @ s)) = Some r"
      using 3(2) k2 h3 by (intro chain_sep) auto
    have k1: "?K1 (l2 @ (s2 @ l3 @ s)) = Some r" using c(2) o2 by (simp add: lit_ci_exact)
    have h2: "(l2 @ s2 @ l3 @ s) \<noteq> [] \<and> hd (l2 @ s2 @ l3 @ s) \<notin> set ''- ''"
      using c(2) by (cases l2) auto
    have o1: "opt (one_of ''- '') ?K1 (s1 @ (l2 @ s2 @ l3 @ s)) = Some r"
      using 3(1) k1 h2 by (intro chain_sep) auto
    have ch: "lit_ci ''chain'' (opt (one_of ''- '') ?K1) (l1 @ (s1 @ l2 @ s2 @ l3 @ s)) = Some r"
      using a(2) o1 by (simp add: lit_ci_exact)
    have lab: "lab @ s = l1 @ (s1 @ l2 @ s2 @ l3 @ s)" by (simp add: a b c d p1 p2)
    obtain c0 l1' where l1: "l1 = c0 # l1'" "lower c0 = CHR ''c''"
      using a(2) by (auto simp: map_eq_Cons_conv)
    have th: "lit_ci ''thought'' k (l1 @ (s1 @ l2 @ s2 @ l3 @ s)) = None" using l1 by simp
    show ?thesis unfolding lab fence_label_def alt_def using ch th by (simp add: orelse_def)
  qed
qed

lemma pat_fence_no_backtick: "c \<noteq> CHR 0x60 \<Longrightarrow> pat_fence bb (c # cs) = None"
  by (simp add: pat_fence_def)

lemma re_sub_fence_flag: "re_sub pat_fence bb s = re_sub pat_fence False s"
  by (cases s) (simp_all add: pat_fence_at0[of bb])

lemma re_sub_fence_skip:
  "CHR 0x60 \<notin> set a \<Longrightarrow> re_sub pat_fence False (a @ rest) = a @ re_sub pat_fence False rest"
proof (induction a)
  case Nil
  then show ?case by simp
next
  case (Cons c a)
  then have "c \<noteq> CHR 0x60" by auto
  then have "pat_fence False (c # a @ rest) = None" by (rule pat_fence_no_backtick)
  with Cons show ?case by simp
qed

lemma pat_fence_block:
  assumes "is_label lab" "CHR 0x60 \<notin> set body"
  shows "pat_fence bb (''```'' @ lab @ body @ ''```'' @ b) = Some b"
proof -
  let ?K = "lazy_star space_or_not (lit_ci ''```'' done_m)"
  have "?K (body @ ''```'' @ b) = Some b" using assms(2) by (rule to_fence)
  then have "fence_label ?K (lab @ (body @ ''```'' @ b)) = Some b"
    using assms(1) by (intro label_match)
  moreover have "lit_ci ''```'' (fence_label ?K) (''```'' @ (lab @ body @ ''```'' @ b))
        = fence_label ?K (lab @ body @ ''```'' @ b)"
    by (rule lit_ci_exact) simp
  ultimately show ?thesis unfolding pat_fence_def by simp
qed

lemma re_sub_fence_block:
  assumes "is_label lab" "CHR 0x60 \<notin> set a" "CHR 0x60 \<notin> set body" "CHR 0x60 \<notin> set b"
  shows "re_sub pat_fence bb (a @ ''```'' @ lab @ body @ ''```'' @ b) = a @ b"
proof -
  let ?blk = "''```'' @ lab @ body @ ''```'' @ b"
  have m: "pat_fence False ?blk = Some b" using assms(1,3) by (rule pat_fence_block)
  have b: "re_sub pat_fence False b = b"
    using re_sub_fence_skip[OF assms(4), of "[]"] by simp
  define cs where "cs = ''``'' @ lab @ body @ ''```'' @ b"
  have cs: "?blk = CHR 0x60 # cs" "length b < Suc (length cs)" by (simp_all add: cs_def)
  have "re_sub pat_fence False ?blk = re_sub pat_fence False b"
    using m unfolding cs(1) using cs(2) by simp
  with b have "re_sub pat_fence False ?blk = b" by simp
  then have "re_sub pat_fence False (a @ ?blk) = a @ b"
    using re_sub_fence_skip[OF assms(2), of ?blk] by simp
  then show ?thesis using re_sub_fence_flag[of bb "a @ ?blk"] by simp
qed

lemma fence_removed:
  assumes "is_label lab" "CHR 0x60 \<notin> set a" "CHR 0x60 \<notin> set body" "CHR 0x60 \<notin> set b"
    and "stripped (a @ ''```'' @ lab @ body @ ''```'' @ b)"
    and "\<not> starts_marker (a @ ''```'' @ lab @ body @ ''```'' @ b)"
  shows "sanitize_answer (a @ ''```'' @ lab @ body @ ''```'' @ b) = strip (a @ b)"
proof -
  let ?t = "a @ ''```'' @ lab @ body @ ''```'' @ b"
  have 1: "sanitize_step pat_thoughts ?t = ?t" "sanitize_step pat_reasoning ?t = ?t"
    "sanitize_step pat_analysis ?t = ?t"
    using assms(5,6) by (simp_all add: starts_marker_def step_anchored_id anchored_pats)
  have "sanitize_step pat_fence ?t = strip (a @ b)"
    unfolding sanitize_step_def using re_sub_fence_block[OF assms(1-4), of True] by simp
  then show ?thesis unfolding sanitize_unfold 1 .
qed

section \<open>The ways through \<open>ask\<close>\<close>

lemma with_history_invoke_Inl:
  assumes "structured_llm e strat (prompt style notes (history_of st sid) input) = Inl err"
  shows "with_history_invoke e strat st input notes style sid
         = (after_invoke st strat (prompt style notes (history_of st sid) input) sid (history_of st sid),
            Inl err)"
proof (cases "message_store st sid")
  case None
  then show ?thesis using assms
    by (simp add: with_history_invoke_def get_or_create_history_def history_of_def after_invoke_def)
next
  case (Some h)
  then have "(message_store st)(sid \<mapsto> h) = message_store st" by (simp add: map_upd_triv)
  with Some show ?thesis using assms
    by (simp add: with_history_invoke_def get_or_create_history_def history_of_def after_invoke_def)
qed

lemma with_history_invoke_Inr:
  assumes "structured_llm e strat (prompt style notes (history_of st sid) input) = Inr resp"
  shows "with_history_invoke e strat st input notes style sid
         = (after_invoke st strat (prompt style notes (history_of st sid) input) sid
              (history_of st sid @ [HumanMessage input, AIMessage (answer resp)]),
            Inr (to_history_and_result resp))"
proof (cases "message_store st sid")
  case None
  then show ?thesis using assms
    by (simp add: with_history_invoke_def get_or_create_history_def history_of_def after_invoke_def
        to_history_and_result_def)
next
  case (Some h)
  then show ?thesis using assms
    by (simp add: with_history_invoke_def get_or_create_history_def history_of_def after_invoke_def
        to_history_and_result_def)
qed

lemma after_invoke_simps [simp]:
  "history_of (after_invoke st strat p sid h) sid = h"
  "sid' \<noteq> sid \<Longrightarrow> message_store (after_invoke st strat p sid h) sid' = message_store st sid'"
  "vectorstore (after_invoke st strat p sid h) = vectorstore st"
  "llm_calls (after_invoke st strat p sid h) = llm_calls st @ [(strat, p)]"
  "message_store (after_invoke st strat p sid h) sid = Some h"
  by (simp_all add: after_invoke_def history_of_def)

lemma ask_retrieve_fails:
  "retrieve_notes e st message = Inl err \<Longrightarrow> ask e st message sid style = (st, Inl err)"
  by (simp add: ask_def)

lemma persist_eq:
  "(case save_note e st2 (note_text message (sanitized resp)) (Some ''assistant_session_memory'') of
      (st3, Inl err) \<Rightarrow> (st3, Inl err)
    | (st3, Inr u) \<Rightarrow> (st3, Inr (sanitized resp)))
   = persist e st2 message resp"
  by (cases "add_texts_error e (vectorstore st2) (derived_note message resp)")
     (simp_all add: save_note_def persist_def derived_note_def)

lemma ask_alt:
  "ask e st message sid style =
     (case retrieve_notes e st message of
        Inl err \<Rightarrow> (st, Inl err)
      | Inr notes \<Rightarrow>
          (case with_history_invoke e JsonMode st message notes (normalized style) sid of
             (st1, Inr out) \<Rightarrow> persist e st1 message (result out)
           | (st1, Inl err) \<Rightarrow>
               if retryable err
               then (case with_history_invoke e JsonSchema st1 message notes (normalized style) sid of
                       (st2, Inl err2) \<Rightarrow> (st2, Inl err2)
                     | (st2, Inr out) \<Rightarrow> persist e st2 message (result out))
               else (st1, Inl err)))"
proof (cases "retrieve_notes e st message")
  case (Inl err)
  then show ?thesis by (simp add: ask_def)
next
  case (Inr nts)
  obtain st1 r1 where w1: "with_history_invoke e JsonMode st message nts (normalized style) sid = (st1, r1)"
    by (cases "with_history_invoke e JsonMode st message nts (normalized style) sid")
  obtain st2 r2 where w2: "with_history_invoke e JsonSchema st1 message nts (normalized style) sid = (st2, r2)"
    by (cases "with_history_invoke e JsonSchema st1 message nts (normalized style) sid")
  have a: "ask e st message sid style =
     (let (st2', r2') = (case r1 of Inr out \<Rightarrow> (st1, Inr out)
                         | Inl err \<Rightarrow> if retryable err then (st2, r2) else (st1, Inl err))
      in case r2' of
           Inl err \<Rightarrow> (st2', Inl err)
         | Inr out \<Rightarrow>
             (case save_note e st2' (note_text message (sanitized (result out)))
                     (Some ''assistant_session_memory'') of
                (st3, Inl err) \<Rightarrow> (st3, Inl err)
              | (st3, Inr u) \<Rightarrow> (st3, Inr (sanitized (result out)))))"
    unfolding ask_def Let_def normalized_def[symmetric] sanitized_def[symmetric]
    by (simp only: Inr sum.case w1 w2 prod.case)
  show ?thesis
  proof (cases r1)
    case r1: (Inr out)
    show ?thesis unfolding a by (simp add: Inr w1 r1 persist_eq)
  next
    case r1: (Inl err)
    show ?thesis
    proof (cases "retryable err")
      case False
      then show ?thesis unfolding a by (simp add: Inr w1 r1)
    next
      case True
      then show ?thesis unfolding a by (cases r2) (simp_all add: Inr w1 w2 r1 persist_eq)
    qed
  qed
qed

lemma ask_primary_ok:
  assumes "retrieve_notes e st message = Inr notes"
    and "structured_llm e JsonMode (prompt (normalized style) notes (history_of st sid) message) = Inr resp"
  shows "ask e st message sid style
         = persist e (after_invoke st JsonMode (prompt (normalized style) notes (history_of st sid) message)
                        sid (history_of st sid @ exchange message resp)) message resp"
  using assms(1) with_history_invoke_Inr[OF assms(2)]
  by (simp add: ask_alt to_history_and_result_def exchange_def)

lemma ask_primary_fatal:
  assumes "retrieve_notes e st message = Inr notes"
    and "structured_llm e JsonMode (prompt (normalized style) notes (history_of st sid) message) = Inl err"
    and "\<not> retryable err"
  shows "ask e st message sid style
         = (after_invoke st JsonMode (prompt (normalized style) notes (history_of st sid) message)
              sid (history_of st sid), Inl err)"
  using assms(1,3) with_history_invoke_Inl[OF assms(2)]
  by (simp add: ask_alt)

lemma ask_both_fail:
  assumes "retrieve_notes e st message = Inr notes"
    and "structured_llm e JsonMode (prompt (normalized style) notes (history_of st sid) message) = Inl err"
    and "retryable err"
    and "structured_llm e JsonSchema (prompt (normalized style) notes (history_of st sid) message) = Inl err2"
  shows "ask e st message sid style
         = (after_invoke
              (after_invoke st JsonMode (prompt (normalized style) notes (history_of st sid) message)
                 sid (history_of st sid))
              JsonSchema (prompt (normalized style) notes (history_of st sid) message)
              sid (history_of st sid), Inl err2)"
proof -
  let ?p = "prompt (normalized style) notes (history_of st sid) message"
  let ?st1 = "after_invoke st JsonMode ?p sid (history_of st sid)"
  have 1: "with_history_invoke e JsonMode st message notes (normalized style) sid = (?st1, Inl err)"
    using assms(2) by (rule with_history_invoke_Inl)
  have "structured_llm e JsonSchema (prompt (normalized style) notes (history_of ?st1 sid) message) = Inl err2"
    using assms(4) by simp
  from with_history_invoke_Inl[OF this]
  have 2: "with_history_invoke e JsonSchema ?st1 message notes (normalized style) sid
        = (after_invoke ?st1 JsonSchema ?p sid (history_of st sid), Inl err2)" by simp
  show ?thesis using assms(1,3) 1 2 by (simp add: ask_alt)
qed

lemma ask_fallback_ok:
  assumes "retrieve_notes e st message = Inr notes"
    and "structured_llm e JsonMode (prompt (normalized style) notes (history_of st sid) message) = Inl err"
    and "retryable err"
    and "structured_llm e JsonSchema (prompt (normalized style) notes (history_of st sid) message) = Inr resp"
  shows "ask e st message sid style
         = persist e (after_invoke
              (after_invoke st JsonMode (prompt (normalized style) notes (history_of st sid) message)
                 sid (history_of st sid))
              JsonSchema (prompt (normalized style) notes (history_of st sid) message)
              sid (history_of st sid @ exchange message resp)) message resp"
proof -
  let ?p = "prompt (normalized style) notes (history_of st sid) message"
  let ?st1 = "after_invoke st JsonMode ?p sid (history_of st sid)"
  have 1: "with_history_invoke e JsonMode st message notes (normalized style) sid = (?st1, Inl err)"
    using assms(2) by (rule with_history_invoke_Inl)
  have "structured_llm e JsonSchema (prompt (normalized style) notes (history_of ?st1 sid) message) = Inr resp"
    using assms(4) by simp
  from with_history_invoke_Inr[OF this]
  have 2: "with_history_invoke e JsonSchema ?st1 message notes (normalized style) sid
        = (after_invoke ?st1 JsonSchema ?p sid (history_of st sid @ exchange message resp),
           Inr (to_history_and_result resp))" by (simp add: exchange_def)
  show ?thesis using assms(1,3) 1 2 by (simp add: ask_alt to_history_and_result_def)
qed

lemma persist_Inl:
  "persist e st2 message resp = (st', Inl err) \<Longrightarrow>
     st' = st2 \<and> add_texts_error e (vectorstore st2) (derived_note message resp) = Some err"
  by (cases "add_texts_error e (vectorstore st2) (derived_note message resp)")
     (auto simp: persist_def)

lemma persist_Inr:
  "persist e st2 message resp = (st', Inr res) \<Longrightarrow>
     st' = st2\<lparr>vectorstore := vectorstore st2 @ [derived_note message resp]\<rparr> \<and> res = sanitized resp"
  by (cases "add_texts_error e (vectorstore st2) (derived_note message resp)")
     (auto simp: persist_def)

lemma persist_frame:
  "message_store (fst (persist e st2 message resp)) = message_store st2"
  "llm_calls (fst (persist e st2 message resp)) = llm_calls st2"
  by (cases "add_texts_error e (vectorstore st2) (derived_note message resp)";
      simp add: persist_def)+

lemma history_of_cong: "message_store a = message_store b \<Longrightarrow> history_of a sid = history_of b sid"
  by (simp add: history_of_def)

text \<open>The five ways through \<open>ask\<close>.\<close>

lemma ask_cases:
  obtains
    (retrieve_fails) err where "retrieve_notes e st message = Inl err"
      "ask e st message sid style = (st, Inl err)"
  | (primary_ok) nts resp where "retrieve_notes e st message = Inr nts"
      "structured_llm e JsonMode (prompt (normalized style) nts (history_of st sid) message) = Inr resp"
      "ask e st message sid style
         = persist e (after_invoke st JsonMode (prompt (normalized style) nts (history_of st sid) message)
                        sid (history_of st sid @ exchange message resp)) message resp"
  | (primary_fatal) nts err where "retrieve_notes e st message = Inr nts"
      "structured_llm e JsonMode (prompt (normalized style) nts (history_of st sid) message) = Inl err"
      "\<not> retryable err"
      "ask e st message sid style
         = (after_invoke st JsonMode (prompt (normalized style) nts (history_of st sid) message)
              sid (history_of st sid), Inl err)"
  | (both_fail) nts err err2 where "retrieve_notes e st message = Inr nts"
      "structured_llm e JsonMode (prompt (normalized style) nts (history_of st sid) message) = Inl err"
      "retryable err"
      "structured_llm e JsonSchema (prompt (normalized style) nts (history_of st sid) message) = Inl err2"
      "ask e st message sid style
         = (after_invoke
              (after_invoke st JsonMode (prompt (normalized style) nts (history_of st sid) message)
                 sid (history_of st sid))
              JsonSchema (prompt (normalized style) nts (history_of st sid) message)
              sid (history_of st sid), Inl err2)"
  | (fallback_ok) nts err resp where "retrieve_notes e st message = Inr nts"
      "structured_llm e JsonMode (prompt (normalized style) nts (history_of st sid) message) = Inl err"
      "retryable err"
      "structured_llm e JsonSchema (prompt (normalized style) nts (history_of st sid) message) = Inr resp"
      "ask e st message sid style
         = persist e (after_invoke
              (after_invoke st JsonMode (prompt (normalized style) nts (history_of st sid) message)
                 sid (history_of st sid))
              JsonSchema (prompt (normalized style) nts (history_of st sid) message)
              sid (history_of st sid @ exchange message resp)) message resp"
proof (cases "retrieve_notes e st message")
  case (Inl err)
  then show ?thesis using ask_retrieve_fails[OF Inl] retrieve_fails by blast
next
  case (Inr nts)
  let ?p = "prompt (normalized style) nts (history_of st sid) message"
  show ?thesis
  proof (cases "structured_llm e JsonMode ?p")
    case r1: (Inr resp)
    show ?thesis using primary_ok[OF Inr r1 ask_primary_ok[OF Inr r1]] .
  next
    case r1: (Inl err)
    show ?thesis
    proof (cases "retryable err")
      case False
      show ?thesis using primary_fatal[OF Inr r1 False ask_primary_fatal[OF Inr r1 False]] .
    next
      case True
      show ?thesis
      proof (cases "structured_llm e JsonSchema ?p")
        case r2: (Inl err2)
        show ?thesis using both_fail[OF Inr r1 True r2 ask_both_fail[OF Inr r1 True r2]] .
      next
        case r2: (Inr resp)
        show ?thesis using fallback_ok[OF Inr r1 True r2 ask_fallback_ok[OF Inr r1 True r2]] .
      qed
    qed
  qed
qed

text \<open>A call for one session and the history of another.\<close>

lemma after_invoke_other:
  "A \<noteq> B \<Longrightarrow> after_invoke (s\<lparr>message_store := (message_store s)(B := h)\<rparr>) strat p A hh
     = (after_invoke s strat p A hh)\<lparr>message_store := (message_store (after_invoke s strat p A hh))(B := h)\<rparr>"
  by (simp add: after_invoke_def fun_upd_twist)

lemma persist_other:
  "persist e (s\<lparr>message_store := (message_store s)(B := h)\<rparr>) m resp
     = (case persist e s m resp of
          (s', r) \<Rightarrow> (s'\<lparr>message_store := (message_store s')(B := h)\<rparr>, r))"
  by (cases "add_texts_error e (vectorstore s) (derived_note m resp)")
     (simp_all add: persist_def)

lemma history_of_other:
  "A \<noteq> B \<Longrightarrow> history_of (s\<lparr>message_store := (message_store s)(B := h)\<rparr>) A = history_of s A"
  by (simp add: history_of_def)

lemma retrieve_notes_other:
  "retrieve_notes e (s\<lparr>message_store := ms\<rparr>) q = retrieve_notes e s q"
  by (simp add: retrieve_notes_def)

lemma ask_other_session:
  assumes ab: "A \<noteq> B"
  shows "ask e (st\<lparr>message_store := (message_store st)(B := h)\<rparr>) m A style
         = (case ask e st m A style of
              (st', r) \<Rightarrow> (st'\<lparr>message_store := (message_store st')(B := h)\<rparr>, r))"
proof -
  let ?stB = "st\<lparr>message_store := (message_store st)(B := h)\<rparr>"
  note hb = history_of_other[OF ab, where s=st and h=h]
  note rb = retrieve_notes_other[where e=e and s=st and ms="(message_store st)(B := h)" and q=m]
  show ?thesis
  proof (cases rule: ask_cases[of e st m A style])
    case (retrieve_fails err)
    from ask_retrieve_fails[of e ?stB m err A style] retrieve_fails show ?thesis by (simp add: rb)
  next
    case (primary_ok nts resp)
    have "ask e ?stB m A style = persist e (after_invoke ?stB JsonMode
            (prompt (normalized style) nts (history_of st A) m) A (history_of st A @ exchange m resp)) m resp"
      using ask_primary_ok[of e ?stB m nts style A resp] primary_ok(1,2) by (simp add: rb hb)
    then show ?thesis by (simp add: primary_ok(3) after_invoke_other[OF ab] persist_other)
  next
    case (primary_fatal nts err)
    have "ask e ?stB m A style = (after_invoke ?stB JsonMode
            (prompt (normalized style) nts (history_of st A) m) A (history_of st A), Inl err)"
      using ask_primary_fatal[of e ?stB m nts style A err] primary_fatal(1,2,3) by (simp add: rb hb)
    then show ?thesis by (simp add: primary_fatal(4) after_invoke_other[OF ab])
  next
    case (both_fail nts err err2)
    have "ask e ?stB m A style = (after_invoke (after_invoke ?stB JsonMode
            (prompt (normalized style) nts (history_of st A) m) A (history_of st A))
            JsonSchema (prompt (normalized style) nts (history_of st A) m) A (history_of st A), Inl err2)"
      using ask_both_fail[of e ?stB m nts style A err err2] both_fail(1,2,3,4) by (simp add: rb hb)
    then show ?thesis by (simp add: both_fail(5) after_invoke_other[OF ab])
  next
    case (fallback_ok nts err resp)
    have "ask e ?stB m A style = persist e (after_invoke (after_invoke ?stB JsonMode
            (prompt (normalized style) nts (history_of st A) m) A (history_of st A))
            JsonSchema (prompt (normalized style) nts (history_of st A) m) A
            (history_of st A @ exchange m resp)) m resp"
      using ask_fallback_ok[of e ?stB m nts style A err resp] fallback_ok(1,2,3,4) by (simp add: rb hb)
    then show ?thesis by (simp add: fallback_ok(5) after_invoke_other[OF ab] persist_other)
  qed
qed

lemma ask_keeps_other_session:
  assumes ab: "A \<noteq> B"
  shows "message_store (fst (ask e st m A style)) B = message_store st B"
proof (cases rule: ask_cases[of e st m A style])
  case (retrieve_fails err)
  then show ?thesis by simp
next
  case (primary_ok nts resp)
  then show ?thesis using ab by (simp add: persist_frame)
next
  case (primary_fatal nts err)
  then show ?thesis using ab by simp
next
  case (both_fail nts err err2)
  then show ?thesis using ab by simp
next
  case (fallback_ok nts err resp)
  then show ?thesis using ab by (simp add: persist_frame)
qed

subsection \<open>What \<open>ask\<close> leaves behind, by the place where it ends\<close>

lemma ask_completion_fails:
  assumes n: "retrieve_notes e st message = Inr nts"
    and p: "p = prompt (normalized style) nts (history_of st sid) message"
    and f: "(structured_llm e JsonMode p = Inl err \<and> \<not> retryable err)
            \<or> (\<exists>err1. structured_llm e JsonMode p = Inl err1 \<and> retryable err1
                   \<and> structured_llm e JsonSchema p = Inl err)"
  shows "snd (ask e st message sid style) = Inl err
         \<and> vectorstore (fst (ask e st message sid style)) = vectorstore st
         \<and> history_of (fst (ask e st message sid style)) sid = history_of st sid
         \<and> (\<forall>other. other \<noteq> sid \<longrightarrow>
               message_store (fst (ask e st message sid style)) other = message_store st other)"
  using f
proof (elim disjE exE conjE)
  assume a: "structured_llm e JsonMode p = Inl err" "\<not> retryable err"
  from ask_primary_fatal[OF n a(1)[unfolded p] a(2)] show ?thesis by simp
next
  fix err1
  assume a: "structured_llm e JsonMode p = Inl err1" "retryable err1"
    "structured_llm e JsonSchema p = Inl err"
  from ask_both_fail[OF n a(1)[unfolded p] a(2) a(3)[unfolded p]] show ?thesis by simp
qed

lemma ask_completion_ok:
  assumes n: "retrieve_notes e st message = Inr nts"
    and p: "p = prompt (normalized style) nts (history_of st sid) message"
    and c: "structured_llm e JsonMode p = Inr resp
            \<or> (\<exists>err1. structured_llm e JsonMode p = Inl err1 \<and> retryable err1
                   \<and> structured_llm e JsonSchema p = Inr resp)"
  shows "\<exists>s2. ask e st message sid style = persist e s2 message resp
           \<and> history_of s2 sid = history_of st sid @ exchange message resp
           \<and> vectorstore s2 = vectorstore st
           \<and> (\<forall>other. other \<noteq> sid \<longrightarrow> message_store s2 other = message_store st other)"
  using c
proof (elim disjE exE conjE)
  assume a: "structured_llm e JsonMode p = Inr resp"
  let ?s2 = "after_invoke st JsonMode (prompt (normalized style) nts (history_of st sid) message)
               sid (history_of st sid @ exchange message resp)"
  have "ask e st message sid style = persist e ?s2 message resp"
    by (rule ask_primary_ok[OF n a[unfolded p]])
  moreover have "history_of ?s2 sid = history_of st sid @ exchange message resp" by simp
  moreover have "vectorstore ?s2 = vectorstore st" by simp
  moreover have "\<forall>other. other \<noteq> sid \<longrightarrow> message_store ?s2 other = message_store st other" by simp
  ultimately show ?thesis by (intro exI[of _ ?s2] conjI)
next
  fix err1
  assume a: "structured_llm e JsonMode p = Inl err1" "retryable err1"
    "structured_llm e JsonSchema p = Inr resp"
  let ?s2 = "after_invoke
              (after_invoke st JsonMode (prompt (normalized style) nts (history_of st sid) message)
                 sid (history_of st sid))
              JsonSchema (prompt (normalized style) nts (history_of st sid) message)
              sid (history_of st sid @ exchange message resp)"
  have "ask e st message sid style = persist e ?s2 message resp"
    by (rule ask_fallback_ok[OF n a(1)[unfolded p] a(2) a(3)[unfolded p]])
  moreover have "history_of ?s2 sid = history_of st sid @ exchange message resp" by simp
  moreover have "vectorstore ?s2 = vectorstore st" by simp
  moreover have "\<forall>other. other \<noteq> sid \<longrightarrow> message_store ?s2 other = message_store st other" by simp
  ultimately show ?thesis by (intro exI[of _ ?s2] conjI)
qed

lemma ask_after_completion:
  assumes n: "retrieve_notes e st message = Inr nts"
    and p: "p = prompt (normalized style) nts (history_of st sid) message"
    and c: "structured_llm e JsonMode p = Inr resp
            \<or> (\<exists>err1. structured_llm e JsonMode p = Inl err1 \<and> retryable err1
                   \<and> structured_llm e JsonSchema p = Inr resp)"
  shows "history_of (fst (ask e st message sid style)) sid
           = history_of st sid @ [HumanMessage message, AIMessage (answer resp)]"
    and "\<forall>other. other \<noteq> sid \<longrightarrow>
           message_store (fst (ask e st message sid style)) other = message_store st other"
    and "\<forall>err. add_texts_error e (vectorstore st) (derived_note message resp) = Some err \<longrightarrow>
           snd (ask e st message sid style) = Inl err
           \<and> vectorstore (fst (ask e st message sid style)) = vectorstore st"
    and "add_texts_error e (vectorstore st) (derived_note message resp) = None \<longrightarrow>
           snd (ask e st message sid style) = Inr (sanitized resp)
           \<and> vectorstore (fst (ask e st message sid style))
               = vectorstore st @ [derived_note message resp]"
proof -
  from ask_completion_ok[OF n p c] obtain s2 where
    a: "ask e st message sid style = persist e s2 message resp"
    and h: "history_of s2 sid = history_of st sid @ exchange message resp"
    and v: "vectorstore s2 = vectorstore st"
    and o: "\<forall>other. other \<noteq> sid \<longrightarrow> message_store s2 other = message_store st other"
    by (elim exE conjE)
  have m: "message_store (fst (ask e st message sid style)) = message_store s2"
    unfolding a by (rule persist_frame(1))
  show "history_of (fst (ask e st message sid style)) sid
           = history_of st sid @ [HumanMessage message, AIMessage (answer resp)]"
    using history_of_cong[OF m, of sid] h by (simp add: exchange_def)
  show "\<forall>other. other \<noteq> sid \<longrightarrow>
           message_store (fst (ask e st message sid style)) other = message_store st other"
    using o unfolding m .
  show "\<forall>err. add_texts_error e (vectorstore st) (derived_note message resp) = Some err \<longrightarrow>
           snd (ask e st message sid style) = Inl err
           \<and> vectorstore (fst (ask e st message sid style)) = vectorstore st"
    unfolding a by (simp add: persist_def v)
  show "add_texts_error e (vectorstore st) (derived_note message resp) = None \<longrightarrow>
           snd (ask e st message sid style) = Inr (sanitized resp)
           \<and> vectorstore (fst (ask e st message sid style))
               = vectorstore st @ [derived_note message resp]"
    unfolding a by (simp add: persist_def v)
qed

lemma ask_llm_calls:
  assumes n: "retrieve_notes e st message = Inr nts"
    and p: "p = prompt (normalized style) nts (history_of st sid) message"
  shows "llm_calls (fst (ask e st message sid style)) = llm_calls st @ [(JsonMode, p)]
         \<or> llm_calls (fst (ask e st message sid style)) = llm_calls st @ [(JsonMode, p), (JsonSchema, p)]"
proof (cases rule: ask_cases[of e st message sid style])
  case (retrieve_fails err)
  with n show ?thesis by simp
next
  case (primary_ok nts' resp)
  from primary_ok(1) n have "nts' = nts" by simp
  with primary_ok(3) show ?thesis by (simp add: p persist_frame)
next
  case (primary_fatal nts' err)
  from primary_fatal(1) n have "nts' = nts" by simp
  with primary_fatal(4) show ?thesis by (simp add: p)
next
  case (both_fail nts' err err2)
  from both_fail(1) n have "nts' = nts" by simp
  with both_fail(5) show ?thesis by (simp add: p)
next
  case (fallback_ok nts' err resp)
  from fallback_ok(1) n have "nts' = nts" by simp
  with fallback_ok(5) show ?thesis by (simp add: p persist_frame)
qed

lemma ask_Inr_cases:
  assumes a: "ask e st message sid style = (st', Inr res)"
  shows "\<exists>nts resp. retrieve_notes e st message = Inr nts
        \<and> (structured_llm e JsonMode (prompt (normalized style) nts (history_of st sid) message) = Inr resp
           \<or> (\<exists>err. structured_llm e JsonMode (prompt (normalized style) nts (history_of st sid) message) = Inl err
                  \<and> retryable err
                  \<and> structured_llm e JsonSchema (prompt (normalized style) nts (history_of st sid) message) = Inr resp))
        \<and> res = sanitized resp"
proof (cases rule: ask_cases[of e st message sid style])
  case (retrieve_fails err)
  with a show ?thesis by simp
next
  case (primary_ok nts resp)
  from a primary_ok(3) have "persist e (after_invoke st JsonMode
        (prompt (normalized style) nts (history_of st sid) message)
        sid (history_of st sid @ exchange message resp)) message resp = (st', Inr res)" by simp
  from persist_Inr[OF this] have "res = sanitized resp" by (rule conjunct2)
  with primary_ok(1,2) show ?thesis by (intro exI[of _ nts] exI[of _ resp] conjI disjI1)
next
  case (primary_fatal nts err)
  with a show ?thesis by simp
next
  case (both_fail nts err err2)
  with a show ?thesis by simp
next
  case (fallback_ok nts err resp)
  from a fallback_ok(5) have "persist e (after_invoke
              (after_invoke st JsonMode (prompt (normalized style) nts (history_of st sid) message)
                 sid (history_of st sid))
              JsonSchema (prompt (normalized style) nts (history_of st sid) message)
              sid (history_of st sid @ exchange message resp)) message resp = (st', Inr res)" by simp
  from persist_Inr[OF this] have r: "res = sanitized resp" by (rule conjunct2)
  have "\<exists>err. structured_llm e JsonMode (prompt (normalized style) nts (history_of st sid) message) = Inl err
                  \<and> retryable err
                  \<and> structured_llm e JsonSchema (prompt (normalized style) nts (history_of st sid) message) = Inr resp"
    using fallback_ok(2,3,4) by (intro exI[of _ err] conjI)
  with fallback_ok(1) r show ?thesis by (intro exI[of _ nts] exI[of _ resp] conjI disjI2)
qed

section \<open>The answer sanitizer: claims\<close>

text \<open>
  The two examples of the specification: a marker word inside a sentence stays, and a
  marker line at the start of the text goes.
\<close>

lemma sanitize_answer_examples:
  "sanitize_answer ''My reasoning skills are great.'' = ''My reasoning skills are great.''"
  "sanitize_answer ''Reasoning: the sky is blue\<newline>Final answer here'' = ''Final answer here''"
  by code_simp+

text \<open>
  C1 at the text \<open>Intro\<close>, \<open>Reasoning: hidden\<close>, \<open>Done\<close> (three lines): the claim says that
  every line beginning with \<open>Reasoning:\<close> is removed.  The three line patterns carry no
  flag \<open>m\<close>, so their \<open>^\<close> is the start of the text and not the start of a line: the
  sanitizer returns this text as it is, and the result still has a line that begins with
  the marker.
\<close>

theorem sanitize_answer_keeps_inner_marker_line:
  "sanitize_answer ''Intro\<newline>Reasoning: hidden\<newline>Done''
     = ''Intro\<newline>Reasoning: hidden\<newline>Done''
   \<and> has_marker_line (sanitize_answer ''Intro\<newline>Reasoning: hidden\<newline>Done'')"
  by code_simp

text \<open>
  C2 at the text \<open>Reasoning: x\<close>, \<open>Thoughts: y\<close>, \<open>Final\<close> (three lines): the claim says
  that a second run of the sanitizer changes nothing.  Each line pattern runs once, at
  the start of the text, in the order thoughts, reasoning, analysis: the \<open>Thoughts:\<close>
  line becomes the first line only after its own pass is over, so the first run returns
  \<open>Thoughts: y\<close>, \<open>Final\<close> and the second run returns \<open>Final\<close>.  With the two marker
  lines in the other order one run returns \<open>Final\<close>.
\<close>

theorem sanitize_answer_not_idempotent:
  "sanitize_answer ''Reasoning: x\<newline>Thoughts: y\<newline>Final'' = ''Thoughts: y\<newline>Final''
   \<and> sanitize_answer (sanitize_answer ''Reasoning: x\<newline>Thoughts: y\<newline>Final'') = ''Final''
   \<and> sanitize_answer ''Thoughts: y\<newline>Reasoning: x\<newline>Final'' = ''Final''"
  by code_simp

text \<open>
  C10: a text that holds none of the markers (no \<open>thought:\<close>, \<open>thoughts:\<close>, \<open>reasoning:\<close>,
  \<open>analysis:\<close> and no opening fence with one of the labels, at any position and in any
  case) comes back as \<open>text.strip()\<close>; and the result of the sanitizer never has leading
  or trailing whitespace, whatever the text.
\<close>

theorem sanitize_answer_strips:
  "(\<not> contains_marker x \<longrightarrow> sanitize_answer x = strip x) \<and> stripped (sanitize_answer x)"
  using sanitize_no_marker[of x] stripped_sanitize[of x] by blast

theorem sanitize_answer_strips_witness:
  "\<not> contains_marker ''  A plain answer. '' \<and> sanitize_answer ''  A plain answer. '' = ''A plain answer.''
   \<and> stripped (sanitize_answer ''  A plain answer. '')"
proof -
  have n: "\<not> contains_marker ''  A plain answer. ''" by code_simp
  have s: "strip ''  A plain answer. '' = ''A plain answer.''" by code_simp
  note t = sanitize_answer_strips[of "''  A plain answer. ''"]
  from t n have "sanitize_answer ''  A plain answer. '' = strip ''  A plain answer. ''" by blast
  then have e: "sanitize_answer ''  A plain answer. '' = ''A plain answer.''" using s by (rule trans)
  from t have st: "stripped (sanitize_answer ''  A plain answer. '')" by blast
  from n e st show ?thesis by (intro conjI)
qed

section \<open>The study assistant: claims\<close>

text \<open>
  C3 as stated: a failed call leaves no partial record, the note write included.  The note
  is saved after the chain has appended the exchange to the history, and nothing undoes
  the append: with a store that refuses the write, \<open>ask\<close> fails, the history of the
  session holds the exchange and the store holds no note of it.
\<close>

theorem ask_note_write_failure_keeps_history:
  "isl (snd (ask env_store_down empty_state ''q'' ''s1'' ''short''))
   \<and> history_of (fst (ask env_store_down empty_state ''q'' ''s1'' ''short'')) ''s1''
       = [HumanMessage ''q'', AIMessage ''Reasoning: r\<newline>Final'']
   \<and> vectorstore (fst (ask env_store_down empty_state ''q'' ''s1'' ''short'')) = []"
  by code_simp

text \<open>
  C3 (amended): what \<open>ask\<close> leaves behind, by the place where it ends.  When the
  retrieval of the notes raises, \<open>ask\<close> raises that exception and nothing has changed.
  When the completion fails (the \<open>json_mode\<close> chain raises an exception that is not
  caught, or a caught one and the \<open>json_schema\<close> chain raises too), \<open>ask\<close> raises that one
  exception, the store has no new note, and the messages of the session and the histories
  of the other sessions are as before.  When a chain has returned a response and the
  write of the note raises, \<open>ask\<close> raises that exception and the store has no new note,
  but the history of the session has the exchange appended (the message of the user and
  the answer as the model gave it) and keeps it.  When the write succeeds, both the
  exchange and the note are there and the response is returned.  The prompt \<open>p\<close> is the
  one of this call and the note \<open>d\<close> the one derived from the response.
\<close>

theorem ask_failure_points:
  "(\<forall>err. retrieve_notes e st message = Inl err \<longrightarrow> ask e st message sid style = (st, Inl err))
   \<and> (\<forall>nts p. retrieve_notes e st message = Inr nts
          \<and> p = prompt (if style \<in> set [''short'', ''detailed''] then style else ''short'') nts
                  (history_of st sid) message \<longrightarrow>
        (\<forall>err. (structured_llm e JsonMode p = Inl err \<and> \<not> retryable err)
               \<or> (\<exists>err1. structured_llm e JsonMode p = Inl err1 \<and> retryable err1
                      \<and> structured_llm e JsonSchema p = Inl err) \<longrightarrow>
           snd (ask e st message sid style) = Inl err
           \<and> vectorstore (fst (ask e st message sid style)) = vectorstore st
           \<and> history_of (fst (ask e st message sid style)) sid = history_of st sid
           \<and> (\<forall>other. other \<noteq> sid \<longrightarrow>
                 message_store (fst (ask e st message sid style)) other = message_store st other))
        \<and> (\<forall>resp d. (structured_llm e JsonMode p = Inr resp
                      \<or> (\<exists>err1. structured_llm e JsonMode p = Inl err1 \<and> retryable err1
                             \<and> structured_llm e JsonSchema p = Inr resp))
                 \<and> d = note_document (note_text message (resp\<lparr>answer := sanitize_answer (answer resp)\<rparr>))
                         (Some ''assistant_session_memory'') \<longrightarrow>
           history_of (fst (ask e st message sid style)) sid
             = history_of st sid @ [HumanMessage message, AIMessage (answer resp)]
           \<and> (\<forall>other. other \<noteq> sid \<longrightarrow>
                 message_store (fst (ask e st message sid style)) other = message_store st other)
           \<and> (\<forall>err. add_texts_error e (vectorstore st) d = Some err \<longrightarrow>
                 snd (ask e st message sid style) = Inl err
                 \<and> vectorstore (fst (ask e st message sid style)) = vectorstore st)
           \<and> (add_texts_error e (vectorstore st) d = None \<longrightarrow>
                 snd (ask e st message sid style) = Inr (resp\<lparr>answer := sanitize_answer (answer resp)\<rparr>)
                 \<and> vectorstore (fst (ask e st message sid style)) = vectorstore st @ [d])))"
proof (rule conjI)
  show "\<forall>err. retrieve_notes e st message = Inl err \<longrightarrow> ask e st message sid style = (st, Inl err)"
  proof (intro allI impI)
    fix err assume "retrieve_notes e st message = Inl err"
    then show "ask e st message sid style = (st, Inl err)" by (rule ask_retrieve_fails)
  qed
next
  show "\<forall>nts p. retrieve_notes e st message = Inr nts
          \<and> p = prompt (if style \<in> set [''short'', ''detailed''] then style else ''short'') nts
                  (history_of st sid) message \<longrightarrow>
        (\<forall>err. (structured_llm e JsonMode p = Inl err \<and> \<not> retryable err)
               \<or> (\<exists>err1. structured_llm e JsonMode p = Inl err1 \<and> retryable err1
                      \<and> structured_llm e JsonSchema p = Inl err) \<longrightarrow>
           snd (ask e st message sid style) = Inl err
           \<and> vectorstore (fst (ask e st message sid style)) = vectorstore st
           \<and> history_of (fst (ask e st message sid style)) sid = history_of st sid
           \<and> (\<forall>other. other \<noteq> sid \<longrightarrow>
                 message_store (fst (ask e st message sid style)) other = message_store st other))
        \<and> (\<forall>resp d. (structured_llm e JsonMode p = Inr resp
                      \<or> (\<exists>err1. structured_llm e JsonMode p = Inl err1 \<and> retryable err1
                             \<and> structured_llm e JsonSchema p = Inr resp))
                 \<and> d = note_document (note_text message (resp\<lparr>answer := sanitize_answer (answer resp)\<rparr>))
                         (Some ''assistant_session_memory'') \<longrightarrow>
           history_of (fst (ask e st message sid style)) sid
             = history_of st sid @ [HumanMessage message, AIMessage (answer resp)]
           \<and> (\<forall>other. other \<noteq> sid \<longrightarrow>
                 message_store (fst (ask e st message sid style)) other = message_store st other)
           \<and> (\<forall>err. add_texts_error e (vectorstore st) d = Some err \<longrightarrow>
                 snd (ask e st message sid style) = Inl err
                 \<and> vectorstore (fst (ask e st message sid style)) = vectorstore st)
           \<and> (add_texts_error e (vectorstore st) d = None \<longrightarrow>
                 snd (ask e st message sid style) = Inr (resp\<lparr>answer := sanitize_answer (answer resp)\<rparr>)
                 \<and> vectorstore (fst (ask e st message sid style)) = vectorstore st @ [d]))"
  proof (rule allI, rule allI, rule impI, erule conjE, rule conjI)
    fix nts p
    assume n: "retrieve_notes e st message = Inr nts"
      and p: "p = prompt (if style \<in> set [''short'', ''detailed''] then style else ''short'') nts
                  (history_of st sid) message"
    have p': "p = prompt (normalized style) nts (history_of st sid) message"
      using p by (simp only: normalized_def)
    show "\<forall>err. (structured_llm e JsonMode p = Inl err \<and> \<not> retryable err)
               \<or> (\<exists>err1. structured_llm e JsonMode p = Inl err1 \<and> retryable err1
                      \<and> structured_llm e JsonSchema p = Inl err) \<longrightarrow>
           snd (ask e st message sid style) = Inl err
           \<and> vectorstore (fst (ask e st message sid style)) = vectorstore st
           \<and> history_of (fst (ask e st message sid style)) sid = history_of st sid
           \<and> (\<forall>other. other \<noteq> sid \<longrightarrow>
                 message_store (fst (ask e st message sid style)) other = message_store st other)"
    proof (rule allI, rule impI)
      fix err
      assume f: "(structured_llm e JsonMode p = Inl err \<and> \<not> retryable err)
               \<or> (\<exists>err1. structured_llm e JsonMode p = Inl err1 \<and> retryable err1
                      \<and> structured_llm e JsonSchema p = Inl err)"
      show "snd (ask e st message sid style) = Inl err
           \<and> vectorstore (fst (ask e st message sid style)) = vectorstore st
           \<and> history_of (fst (ask e st message sid style)) sid = history_of st sid
           \<and> (\<forall>other. other \<noteq> sid \<longrightarrow>
                 message_store (fst (ask e st message sid style)) other = message_store st other)"
        by (rule ask_completion_fails[OF n p' f])
    qed
  next
    fix nts p
    assume n: "retrieve_notes e st message = Inr nts"
      and p: "p = prompt (if style \<in> set [''short'', ''detailed''] then style else ''short'') nts
                  (history_of st sid) message"
    have p': "p = prompt (normalized style) nts (history_of st sid) message"
      using p by (simp only: normalized_def)
    show "\<forall>resp d. (structured_llm e JsonMode p = Inr resp
                      \<or> (\<exists>err1. structured_llm e JsonMode p = Inl err1 \<and> retryable err1
                             \<and> structured_llm e JsonSchema p = Inr resp))
                 \<and> d = note_document (note_text message (resp\<lparr>answer := sanitize_answer (answer resp)\<rparr>))
                         (Some ''assistant_session_memory'') \<longrightarrow>
           history_of (fst (ask e st message sid style)) sid
             = history_of st sid @ [HumanMessage message, AIMessage (answer resp)]
           \<and> (\<forall>other. other \<noteq> sid \<longrightarrow>
                 message_store (fst (ask e st message sid style)) other = message_store st other)
           \<and> (\<forall>err. add_texts_error e (vectorstore st) d = Some err \<longrightarrow>
                 snd (ask e st message sid style) = Inl err
                 \<and> vectorstore (fst (ask e st message sid style)) = vectorstore st)
           \<and> (add_texts_error e (vectorstore st) d = None \<longrightarrow>
                 snd (ask e st message sid style) = Inr (resp\<lparr>answer := sanitize_answer (answer resp)\<rparr>)
                 \<and> vectorstore (fst (ask e st message sid style)) = vectorstore st @ [d])"
    proof (rule allI, rule allI, rule impI, erule conjE)
      fix resp d
      assume c: "structured_llm e JsonMode p = Inr resp
                      \<or> (\<exists>err1. structured_llm e JsonMode p = Inl err1 \<and> retryable err1
                             \<and> structured_llm e JsonSchema p = Inr resp)"
        and d: "d = note_document (note_text message (resp\<lparr>answer := sanitize_answer (answer resp)\<rparr>))
                         (Some ''assistant_session_memory'')"
      have d': "derived_note message resp = d" by (simp only: d derived_note_def sanitized_def)
      have s': "sanitized resp = resp\<lparr>answer := sanitize_answer (answer resp)\<rparr>"
        by (simp only: sanitized_def)
      note r = ask_after_completion[OF n p' c, unfolded d' s']
      show "history_of (fst (ask e st message sid style)) sid
             = history_of st sid @ [HumanMessage message, AIMessage (answer resp)]
           \<and> (\<forall>other. other \<noteq> sid \<longrightarrow>
                 message_store (fst (ask e st message sid style)) other = message_store st other)
           \<and> (\<forall>err. add_texts_error e (vectorstore st) d = Some err \<longrightarrow>
                 snd (ask e st message sid style) = Inl err
                 \<and> vectorstore (fst (ask e st message sid style)) = vectorstore st)
           \<and> (add_texts_error e (vectorstore st) d = None \<longrightarrow>
                 snd (ask e st message sid style) = Inr (resp\<lparr>answer := sanitize_answer (answer resp)\<rparr>)
                 \<and> vectorstore (fst (ask e st message sid style)) = vectorstore st @ [d])"
        using r by (intro conjI)
    qed
  qed
qed

theorem ask_failure_points_witness:
  "retrieve_notes env_retrieval_down two_sessions ''q'' = Inl (OtherError ''store unreachable'')
   \<and> ask env_retrieval_down two_sessions ''q'' ''a'' ''short''
       = (two_sessions, Inl (OtherError ''store unreachable''))
   \<and> retrieve_notes env_both_fail two_sessions ''q'' = Inr ''[Note 1]\<newline>a note''
   \<and> structured_llm env_both_fail JsonMode
         (prompt ''short'' ''[Note 1]\<newline>a note'' (history_of two_sessions ''a'') ''q'')
       = Inl (ValueError ''malformed output'')
   \<and> retryable (ValueError ''malformed output'')
   \<and> structured_llm env_both_fail JsonSchema
         (prompt ''short'' ''[Note 1]\<newline>a note'' (history_of two_sessions ''a'') ''q'')
       = Inl (BadRequestError ''schema rejected'')
   \<and> snd (ask env_both_fail two_sessions ''q'' ''a'' ''short'') = Inl (BadRequestError ''schema rejected'')
   \<and> vectorstore (fst (ask env_both_fail two_sessions ''q'' ''a'' ''short'')) = vectorstore two_sessions
   \<and> history_of (fst (ask env_both_fail two_sessions ''q'' ''a'' ''short'')) ''a''
       = history_of two_sessions ''a''
   \<and> message_store (fst (ask env_both_fail two_sessions ''q'' ''a'' ''short'')) ''b''
       = message_store two_sessions ''b''
   \<and> retrieve_notes env_store_down two_sessions ''q'' = Inr ''[Note 1]\<newline>a note''
   \<and> structured_llm env_store_down JsonMode
         (prompt ''short'' ''[Note 1]\<newline>a note'' (history_of two_sessions ''a'') ''q'')
       = Inr demo_response
   \<and> add_texts_error env_store_down (vectorstore two_sessions)
         (note_document (note_text ''q'' (demo_response\<lparr>answer := sanitize_answer (answer demo_response)\<rparr>))
            (Some ''assistant_session_memory''))
       = Some (OtherError ''store is read-only'')
   \<and> snd (ask env_store_down two_sessions ''q'' ''a'' ''short'') = Inl (OtherError ''store is read-only'')
   \<and> vectorstore (fst (ask env_store_down two_sessions ''q'' ''a'' ''short'')) = vectorstore two_sessions
   \<and> history_of (fst (ask env_store_down two_sessions ''q'' ''a'' ''short'')) ''a''
       = history_of two_sessions ''a'' @ [HumanMessage ''q'', AIMessage (answer demo_response)]
   \<and> message_store (fst (ask env_store_down two_sessions ''q'' ''a'' ''short'')) ''b''
       = message_store two_sessions ''b''
   \<and> retrieve_notes env_ok two_sessions ''q'' = Inr ''[Note 1]\<newline>a note''
   \<and> structured_llm env_ok JsonMode
         (prompt ''short'' ''[Note 1]\<newline>a note'' (history_of two_sessions ''a'') ''q'')
       = Inr demo_response
   \<and> add_texts_error env_ok (vectorstore two_sessions)
         (note_document (note_text ''q'' (demo_response\<lparr>answer := sanitize_answer (answer demo_response)\<rparr>))
            (Some ''assistant_session_memory''))
       = None
   \<and> snd (ask env_ok two_sessions ''q'' ''a'' ''short'')
       = Inr (demo_response\<lparr>answer := sanitize_answer (answer demo_response)\<rparr>)
   \<and> vectorstore (fst (ask env_ok two_sessions ''q'' ''a'' ''short''))
       = vectorstore two_sessions
         @ [note_document (note_text ''q'' (demo_response\<lparr>answer := sanitize_answer (answer demo_response)\<rparr>))
              (Some ''assistant_session_memory'')]
   \<and> history_of (fst (ask env_ok two_sessions ''q'' ''a'' ''short'')) ''a''
       = history_of two_sessions ''a'' @ [HumanMessage ''q'', AIMessage (answer demo_response)]"
proof -
  let ?n = "''[Note 1]\<newline>a note''"
  let ?p = "prompt ''short'' ?n (history_of two_sessions ''a'') ''q''"
  let ?d = "note_document (note_text ''q'' (demo_response\<lparr>answer := sanitize_answer (answer demo_response)\<rparr>))
              (Some ''assistant_session_memory'')"
  have p: "?p = prompt (if ''short'' \<in> set [''short'', ''detailed''] then ''short'' else ''short'') ?n
                   (history_of two_sessions ''a'') ''q''"
    by simp
  have b: "''b'' \<noteq> ''a''" by simp
  have n0: "retrieve_notes env_retrieval_down two_sessions ''q'' = Inl (OtherError ''store unreachable'')"
    by (simp add: retrieve_notes_def env_retrieval_down_def env_ok_def)
  note c0 = ask_failure_points[of env_retrieval_down two_sessions "''q''" "''a''" "''short''",
      THEN conjunct1, THEN spec, THEN mp, OF n0]
  have n1: "retrieve_notes env_both_fail two_sessions ''q'' = Inr ?n" by code_simp
  have a1: "structured_llm env_both_fail JsonMode ?p = Inl (ValueError ''malformed output'')"
    by (simp add: env_both_fail_def env_ok_def)
  have r1: "retryable (ValueError ''malformed output'')" by simp
  have b1: "structured_llm env_both_fail JsonSchema ?p = Inl (BadRequestError ''schema rejected'')"
    by (simp add: env_both_fail_def env_ok_def)
  have f1: "(structured_llm env_both_fail JsonMode ?p = Inl (BadRequestError ''schema rejected'')
               \<and> \<not> retryable (BadRequestError ''schema rejected''))
            \<or> (\<exists>err1. structured_llm env_both_fail JsonMode ?p = Inl err1 \<and> retryable err1
                   \<and> structured_llm env_both_fail JsonSchema ?p = Inl (BadRequestError ''schema rejected''))"
    by (rule disjI2, rule exI[of _ "ValueError ''malformed output''"], intro conjI, rule a1, rule r1, rule b1)
  note t1 = ask_failure_points[of env_both_fail two_sessions "''q''" "''a''" "''short''",
      THEN conjunct2, THEN spec, THEN spec, THEN mp, OF conjI[OF n1 p],
      THEN conjunct1, THEN spec, THEN mp, OF f1]
  note c1 = t1[THEN conjunct1]
  note c2 = t1[THEN conjunct2, THEN conjunct1]
  note c3 = t1[THEN conjunct2, THEN conjunct2, THEN conjunct1]
  note c4 = t1[THEN conjunct2, THEN conjunct2, THEN conjunct2, THEN spec, THEN mp, OF b]
  have n2: "retrieve_notes env_store_down two_sessions ''q'' = Inr ?n" by code_simp
  have a2: "structured_llm env_store_down JsonMode ?p = Inr demo_response"
    by (simp add: env_store_down_def env_ok_def)
  have w2: "add_texts_error env_store_down (vectorstore two_sessions) ?d
              = Some (OtherError ''store is read-only'')"
    by (simp add: env_store_down_def env_ok_def)
  note t2 = ask_failure_points[of env_store_down two_sessions "''q''" "''a''" "''short''",
      THEN conjunct2, THEN spec, THEN spec, THEN mp, OF conjI[OF n2 p],
      THEN conjunct2, THEN spec, THEN spec, THEN mp, OF conjI[OF disjI1[OF a2] refl]]
  note d1 = t2[THEN conjunct1]
  note d2 = t2[THEN conjunct2, THEN conjunct1, THEN spec, THEN mp, OF b]
  note d3 = t2[THEN conjunct2, THEN conjunct2, THEN conjunct1, THEN spec, THEN mp, OF w2]
  have n3: "retrieve_notes env_ok two_sessions ''q'' = Inr ?n" by code_simp
  have a3: "structured_llm env_ok JsonMode ?p = Inr demo_response"
    by (simp add: env_ok_def)
  have w3: "add_texts_error env_ok (vectorstore two_sessions) ?d = None"
    by (simp add: env_ok_def)
  note t3 = ask_failure_points[of env_ok two_sessions "''q''" "''a''" "''short''",
      THEN conjunct2, THEN spec, THEN spec, THEN mp, OF conjI[OF n3 p],
      THEN conjunct2, THEN spec, THEN spec, THEN mp, OF conjI[OF disjI1[OF a3] refl]]
  note e1 = t3[THEN conjunct1]
  note e3 = t3[THEN conjunct2, THEN conjunct2, THEN conjunct2, THEN mp, OF w3]
  from n0 c0 n1 a1 r1 b1 c1 c2 c3 c4 n2 a2 w2 d3[THEN conjunct1] d3[THEN conjunct2] d1 d2
    n3 a3 w3 e3[THEN conjunct1] e3[THEN conjunct2] e1
  show ?thesis by (intro conjI)
qed

text \<open>
  C4: when the \<open>json_mode\<close> chain raises an exception that the \<open>except\<close> clause catches
  (\<open>BadRequestError\<close>: the provider rejects; \<open>ValueError\<close>, \<open>KeyError\<close>: the output is
  malformed), the \<open>json_schema\<close> chain is called once, with the same prompt, and nothing
  else is called; if that raises too, its exception is what \<open>ask\<close> raises.  Any other
  exception of the \<open>json_mode\<close> chain (a provider that is unavailable) is raised at once,
  after that one call.
\<close>

theorem ask_fallback_once:
  "retrieve_notes e st message = Inr nts
   \<and> p = prompt (if style \<in> set [''short'', ''detailed''] then style else ''short'') nts
             (history_of st sid) message
   \<and> structured_llm e JsonMode p = Inl err \<longrightarrow>
     (retryable err \<longrightarrow>
        llm_calls (fst (ask e st message sid style)) = llm_calls st @ [(JsonMode, p), (JsonSchema, p)]
        \<and> (\<forall>err2. structured_llm e JsonSchema p = Inl err2 \<longrightarrow>
               snd (ask e st message sid style) = Inl err2))
     \<and> (\<not> retryable err \<longrightarrow>
        llm_calls (fst (ask e st message sid style)) = llm_calls st @ [(JsonMode, p)]
        \<and> snd (ask e st message sid style) = Inl err)"
proof (intro impI, elim conjE)
  assume n: "retrieve_notes e st message = Inr nts"
    and p: "p = prompt (if style \<in> set [''short'', ''detailed''] then style else ''short'') nts
             (history_of st sid) message"
    and r1: "structured_llm e JsonMode p = Inl err"
  have p': "p = prompt (normalized style) nts (history_of st sid) message"
    using p by (simp only: normalized_def)
  note r1' = r1[unfolded p']
  show "(retryable err \<longrightarrow>
        llm_calls (fst (ask e st message sid style)) = llm_calls st @ [(JsonMode, p), (JsonSchema, p)]
        \<and> (\<forall>err2. structured_llm e JsonSchema p = Inl err2 \<longrightarrow>
               snd (ask e st message sid style) = Inl err2))
     \<and> (\<not> retryable err \<longrightarrow>
        llm_calls (fst (ask e st message sid style)) = llm_calls st @ [(JsonMode, p)]
        \<and> snd (ask e st message sid style) = Inl err)"
  proof (intro conjI impI allI)
    assume t: "retryable err"
    show "llm_calls (fst (ask e st message sid style)) = llm_calls st @ [(JsonMode, p), (JsonSchema, p)]"
    proof (cases "structured_llm e JsonSchema p")
      case (Inl err2)
      from ask_both_fail[OF n r1' t Inl[unfolded p']] show ?thesis by (simp add: p')
    next
      case (Inr resp)
      from ask_fallback_ok[OF n r1' t Inr[unfolded p']] show ?thesis
        by (simp add: p' persist_frame)
    qed
  next
    fix err2 assume t: "retryable err" and r2: "structured_llm e JsonSchema p = Inl err2"
    from ask_both_fail[OF n r1' t r2[unfolded p']]
    show "snd (ask e st message sid style) = Inl err2" by simp
  next
    assume f: "\<not> retryable err"
    from ask_primary_fatal[OF n r1' f]
    show "llm_calls (fst (ask e st message sid style)) = llm_calls st @ [(JsonMode, p)]"
      by (simp add: p')
  next
    assume f: "\<not> retryable err"
    from ask_primary_fatal[OF n r1' f]
    show "snd (ask e st message sid style) = Inl err" by simp
  qed
qed

theorem ask_fallback_once_witness:
  "(retrieve_notes env_both_fail empty_state ''q'' = Inr []
    \<and> structured_llm env_both_fail JsonMode (prompt ''short'' [] [] ''q'') = Inl (ValueError ''malformed output'')
    \<and> retryable (ValueError ''malformed output'')
    \<and> structured_llm env_both_fail JsonSchema (prompt ''short'' [] [] ''q'')
        = Inl (BadRequestError ''schema rejected''))
   \<and> llm_calls (fst (ask env_both_fail empty_state ''q'' ''s1'' ''short''))
       = [(JsonMode, prompt ''short'' [] [] ''q''), (JsonSchema, prompt ''short'' [] [] ''q'')]
   \<and> snd (ask env_both_fail empty_state ''q'' ''s1'' ''short'') = Inl (BadRequestError ''schema rejected'')
   \<and> (retrieve_notes env_unavailable empty_state ''q'' = Inr []
    \<and> structured_llm env_unavailable JsonMode (prompt ''short'' [] [] ''q'') = Inl (OtherError ''connection error'')
    \<and> \<not> retryable (OtherError ''connection error''))
   \<and> llm_calls (fst (ask env_unavailable empty_state ''q'' ''s1'' ''short''))
       = [(JsonMode, prompt ''short'' [] [] ''q'')]
   \<and> snd (ask env_unavailable empty_state ''q'' ''s1'' ''short'') = Inl (OtherError ''connection error'')"
proof -
  let ?p = "prompt ''short'' [] [] ''q''"
  have p: "?p = prompt (if ''short'' \<in> set [''short'', ''detailed''] then ''short'' else ''short'') []
                   (history_of empty_state ''s1'') ''q''"
    by (simp add: history_of_def empty_state_def)
  have n1: "retrieve_notes env_both_fail empty_state ''q'' = Inr []"
    by (simp add: retrieve_notes_def env_both_fail_def env_ok_def empty_state_def)
  have a1: "structured_llm env_both_fail JsonMode ?p = Inl (ValueError ''malformed output'')"
    by (simp add: env_both_fail_def env_ok_def)
  have b1: "structured_llm env_both_fail JsonSchema ?p = Inl (BadRequestError ''schema rejected'')"
    by (simp add: env_both_fail_def env_ok_def)
  have r1: "retryable (ValueError ''malformed output'')" by simp
  have n2: "retrieve_notes env_unavailable empty_state ''q'' = Inr []"
    by (simp add: retrieve_notes_def env_unavailable_def env_ok_def empty_state_def)
  have a2: "structured_llm env_unavailable JsonMode ?p = Inl (OtherError ''connection error'')"
    by (simp add: env_unavailable_def env_ok_def)
  have r2: "\<not> retryable (OtherError ''connection error'')" by simp
  have e: "llm_calls empty_state = []" by (simp add: empty_state_def)
  note t1 = ask_fallback_once[of env_both_fail empty_state "''q''" "[]" ?p "''short''" "''s1''"
      "ValueError ''malformed output''", THEN mp, OF conjI[OF n1 conjI[OF p a1]]]
  note t2 = ask_fallback_once[of env_unavailable empty_state "''q''" "[]" ?p "''short''" "''s1''"
      "OtherError ''connection error''", THEN mp, OF conjI[OF n2 conjI[OF p a2]]]
  note u1 = t1[THEN conjunct1, THEN mp, OF r1]
  note u2 = t2[THEN conjunct2, THEN mp, OF r2]
  have c1: "llm_calls (fst (ask env_both_fail empty_state ''q'' ''s1'' ''short''))
       = [(JsonMode, ?p), (JsonSchema, ?p)]"
    using u1[THEN conjunct1] unfolding e append_Nil .
  note c2 = u1[THEN conjunct2, THEN spec, THEN mp, OF b1]
  have c3: "llm_calls (fst (ask env_unavailable empty_state ''q'' ''s1'' ''short''))
       = [(JsonMode, ?p)]"
    using u2[THEN conjunct1] unfolding e append_Nil .
  note c4 = u2[THEN conjunct2]
  from n1 a1 r1 b1 c1 c2 n2 a2 r2 c3 c4 show ?thesis by (intro conjI)
qed

text \<open>
  C5 at \<open>ask("q", session_id="s1", style="short")\<close> on a new assistant whose model answers
  \<open>Reasoning: r\<close>, a line feed and \<open>Final\<close>: the claim says that the assistant message of
  the history is the sanitised answer that the caller gets.  The chain builds the
  \<open>AIMessage\<close> from the answer of the model and the history takes it when the chain ends;
  \<open>ask\<close> sanitises the answer only afterwards, for the result and for the note.  The
  history holds the answer with its \<open>Reasoning:\<close> line, the caller gets \<open>Final\<close> and the
  note holds \<open>Final\<close>.
\<close>

theorem ask_history_keeps_model_answer:
  "history_of (fst (ask env_ok empty_state ''q'' ''s1'' ''short'')) ''s1''
     = [HumanMessage ''q'', AIMessage ''Reasoning: r\<newline>Final'']
   \<and> snd (ask env_ok empty_state ''q'' ''s1'' ''short'') = Inr (demo_response\<lparr>answer := ''Final''\<rparr>)
   \<and> map page_content (vectorstore (fst (ask env_ok empty_state ''q'' ''s1'' ''short'')))
       = [''Question: q\<newline>Answer: Final\<newline>Key points: k1\<newline>Follow-ups: q1'']"
  by code_simp

text \<open>
  C6 as stated: the answer of a successful call is never empty.  Nothing in \<open>ask\<close> or in
  \<open>StudyAssistantResponse\<close> asks for a non-empty answer: when the model answers with a
  \<open>Thoughts:\<close> line only, the sanitiser leaves the empty text and \<open>ask\<close> returns it.
\<close>

theorem ask_answer_may_be_empty:
  "snd (ask env_thinking empty_state ''What is a derivative?'' ''s1'' ''short'')
     = Inr (thinking_response\<lparr>answer := []\<rparr>)"
  by code_simp

text \<open>
  C6 (amended): a successful \<open>ask\<close>, for every message and every style, returns the
  response that the model gave to the prompt of this call (the \<open>json_mode\<close> model, or the
  \<open>json_schema\<close> model after a caught failure of the first) with its answer sanitised: the
  answer has no surrounding whitespace and may be empty, and the key points, the suggested
  questions and the references are the lists of that response.
\<close>

theorem ask_success_result:
  "ask e st message sid style = (st', Inr res) \<longrightarrow>
     (\<exists>nts p resp. retrieve_notes e st message = Inr nts
        \<and> p = prompt (if style \<in> set [''short'', ''detailed''] then style else ''short'') nts
                (history_of st sid) message
        \<and> (structured_llm e JsonMode p = Inr resp
           \<or> (\<exists>err. structured_llm e JsonMode p = Inl err \<and> retryable err
                  \<and> structured_llm e JsonSchema p = Inr resp))
        \<and> answer res = sanitize_answer (answer resp)
        \<and> key_points res = key_points resp
        \<and> suggested_questions res = suggested_questions resp
        \<and> references res = references resp)
     \<and> stripped (answer res)"
proof
  assume a: "ask e st message sid style = (st', Inr res)"
  from ask_Inr_cases[OF a] obtain nts resp where
    n: "retrieve_notes e st message = Inr nts"
    and c: "structured_llm e JsonMode (prompt (normalized style) nts (history_of st sid) message) = Inr resp
           \<or> (\<exists>err. structured_llm e JsonMode (prompt (normalized style) nts (history_of st sid) message) = Inl err
                  \<and> retryable err
                  \<and> structured_llm e JsonSchema (prompt (normalized style) nts (history_of st sid) message) = Inr resp)"
    and r: "res = sanitized resp"
    by (elim exE conjE)
  let ?p = "prompt (if style \<in> set [''short'', ''detailed''] then style else ''short'') nts
                (history_of st sid) message"
  have p: "prompt (normalized style) nts (history_of st sid) message = ?p"
    by (simp only: normalized_def)
  note c' = c[unfolded p]
  have 1: "answer res = sanitize_answer (answer resp)" using r by (simp add: sanitized_def)
  have 2: "key_points res = key_points resp" using r by (simp add: sanitized_def)
  have 3: "suggested_questions res = suggested_questions resp" using r by (simp add: sanitized_def)
  have 4: "references res = references resp" using r by (simp add: sanitized_def)
  have 5: "stripped (answer res)" unfolding 1 by (rule stripped_sanitize)
  have "\<exists>nts p resp. retrieve_notes e st message = Inr nts
        \<and> p = prompt (if style \<in> set [''short'', ''detailed''] then style else ''short'') nts
                (history_of st sid) message
        \<and> (structured_llm e JsonMode p = Inr resp
           \<or> (\<exists>err. structured_llm e JsonMode p = Inl err \<and> retryable err
                  \<and> structured_llm e JsonSchema p = Inr resp))
        \<and> answer res = sanitize_answer (answer resp)
        \<and> key_points res = key_points resp
        \<and> suggested_questions res = suggested_questions resp
        \<and> references res = references resp"
    using n c' 1 2 3 4 by (intro exI[of _ nts] exI[of _ ?p] exI[of _ resp] conjI refl)
  then show "(\<exists>nts p resp. retrieve_notes e st message = Inr nts
        \<and> p = prompt (if style \<in> set [''short'', ''detailed''] then style else ''short'') nts
                (history_of st sid) message
        \<and> (structured_llm e JsonMode p = Inr resp
           \<or> (\<exists>err. structured_llm e JsonMode p = Inl err \<and> retryable err
                  \<and> structured_llm e JsonSchema p = Inr resp))
        \<and> answer res = sanitize_answer (answer resp)
        \<and> key_points res = key_points resp
        \<and> suggested_questions res = suggested_questions resp
        \<and> references res = references resp)
     \<and> stripped (answer res)" using 5 by (rule conjI)
qed

theorem ask_success_result_witness:
  "ask env_ok empty_state ''What is a derivative?'' ''s1'' ''detailed''
     = (fst (ask env_ok empty_state ''What is a derivative?'' ''s1'' ''detailed''),
        Inr (demo_response\<lparr>answer := ''Final''\<rparr>))
   \<and> (\<exists>nts p resp. retrieve_notes env_ok empty_state ''What is a derivative?'' = Inr nts
        \<and> p = prompt (if ''detailed'' \<in> set [''short'', ''detailed''] then ''detailed'' else ''short'') nts
                (history_of empty_state ''s1'') ''What is a derivative?''
        \<and> (structured_llm env_ok JsonMode p = Inr resp
           \<or> (\<exists>err. structured_llm env_ok JsonMode p = Inl err \<and> retryable err
                  \<and> structured_llm env_ok JsonSchema p = Inr resp))
        \<and> answer (demo_response\<lparr>answer := ''Final''\<rparr>) = sanitize_answer (answer resp)
        \<and> key_points (demo_response\<lparr>answer := ''Final''\<rparr>) = key_points resp
        \<and> suggested_questions (demo_response\<lparr>answer := ''Final''\<rparr>) = suggested_questions resp
        \<and> references (demo_response\<lparr>answer := ''Final''\<rparr>) = references resp)
   \<and> stripped (answer (demo_response\<lparr>answer := ''Final''\<rparr>))"
proof -
  let ?r = "ask env_ok empty_state ''What is a derivative?'' ''s1'' ''detailed''"
  have s: "snd ?r = Inr (demo_response\<lparr>answer := ''Final''\<rparr>)" by code_simp
  have h: "?r = (fst ?r, Inr (demo_response\<lparr>answer := ''Final''\<rparr>))"
    using s by (simp add: prod_eq_iff)
  note t = ask_success_result[of env_ok empty_state "''What is a derivative?''" "''s1''" "''detailed''"
      "fst ?r" "demo_response\<lparr>answer := ''Final''\<rparr>", THEN mp, OF h]
  from h t show ?thesis by (rule conjI)
qed

text \<open>
  C7: a style other than \<open>short\<close> and \<open>detailed\<close> gives the call that \<open>short\<close> gives: the
  same result and the same state after it, for every model, store and state.  The prompt
  of each call to a model is the one built with the style \<open>short\<close>: the trace of the calls
  grows by the \<open>json_mode\<close> call with that prompt, and by the \<open>json_schema\<close> call with that
  prompt when there is a second call.
\<close>

theorem ask_style_normalised:
  "style \<notin> set [''short'', ''detailed''] \<longrightarrow>
     ask e st message sid style = ask e st message sid ''short''
     \<and> (\<forall>nts p. retrieve_notes e st message = Inr nts
            \<and> p = prompt ''short'' nts (history_of st sid) message \<longrightarrow>
          llm_calls (fst (ask e st message sid style)) = llm_calls st @ [(JsonMode, p)]
          \<or> llm_calls (fst (ask e st message sid style)) = llm_calls st @ [(JsonMode, p), (JsonSchema, p)])"
proof (rule impI, rule conjI)
  assume s: "style \<notin> set [''short'', ''detailed'']"
  then show "ask e st message sid style = ask e st message sid ''short''" by (simp add: ask_def)
next
  assume s: "style \<notin> set [''short'', ''detailed'']"
  have ns: "normalized style = ''short''" using s by (simp only: normalized_def if_False)
  show "\<forall>nts p. retrieve_notes e st message = Inr nts
            \<and> p = prompt ''short'' nts (history_of st sid) message \<longrightarrow>
          llm_calls (fst (ask e st message sid style)) = llm_calls st @ [(JsonMode, p)]
          \<or> llm_calls (fst (ask e st message sid style)) = llm_calls st @ [(JsonMode, p), (JsonSchema, p)]"
  proof (rule allI, rule allI, rule impI, erule conjE)
    fix nts p
    assume n: "retrieve_notes e st message = Inr nts"
      and p: "p = prompt ''short'' nts (history_of st sid) message"
    have p': "p = prompt (normalized style) nts (history_of st sid) message"
      unfolding ns by (rule p)
    show "llm_calls (fst (ask e st message sid style)) = llm_calls st @ [(JsonMode, p)]
          \<or> llm_calls (fst (ask e st message sid style)) = llm_calls st @ [(JsonMode, p), (JsonSchema, p)]"
      by (rule ask_llm_calls[OF n p'])
  qed
qed

theorem ask_style_normalised_witness:
  "''verbose'' \<notin> set [''short'', ''detailed'']
   \<and> ask env_json_rejected two_sessions ''q'' ''a'' ''verbose''
       = ask env_json_rejected two_sessions ''q'' ''a'' ''short''
   \<and> retrieve_notes env_json_rejected two_sessions ''q'' = Inr ''[Note 1]\<newline>a note''
   \<and> (llm_calls (fst (ask env_json_rejected two_sessions ''q'' ''a'' ''verbose''))
        = llm_calls two_sessions
          @ [(JsonMode, prompt ''short'' ''[Note 1]\<newline>a note'' (history_of two_sessions ''a'') ''q'')]
      \<or> llm_calls (fst (ask env_json_rejected two_sessions ''q'' ''a'' ''verbose''))
        = llm_calls two_sessions
          @ [(JsonMode, prompt ''short'' ''[Note 1]\<newline>a note'' (history_of two_sessions ''a'') ''q''),
             (JsonSchema, prompt ''short'' ''[Note 1]\<newline>a note'' (history_of two_sessions ''a'') ''q'')])"
proof -
  have h: "''verbose'' \<notin> set [''short'', ''detailed'']" by simp
  have n: "retrieve_notes env_json_rejected two_sessions ''q'' = Inr ''[Note 1]\<newline>a note''"
    by code_simp
  note t = ask_style_normalised[of "''verbose''" env_json_rejected two_sessions "''q''" "''a''",
      THEN mp, OF h]
  note 1 = t[THEN conjunct1]
  note 2 = t[THEN conjunct2, THEN spec, THEN spec, THEN mp, OF conjI[OF n refl]]
  from h 1 n 2 show ?thesis by (intro conjI)
qed

text \<open>
  C8: a call for session \<open>A\<close> leaves the history of every other session \<open>B\<close> as it was, and
  what it returns and does is the same whatever the history of \<open>B\<close> is (present with any
  messages, or absent): it reads the history of \<open>A\<close> only.  The histories are meant; the
  documents of the store are one list for all sessions.
\<close>

theorem ask_session_isolated:
  "A \<noteq> B \<longrightarrow>
     message_store (fst (ask e st message A style)) B = message_store st B
     \<and> ask e (st\<lparr>message_store := (message_store st)(B := h)\<rparr>) message A style
         = (case ask e st message A style of
              (st', r) \<Rightarrow> (st'\<lparr>message_store := (message_store st')(B := h)\<rparr>, r))"
  using ask_keeps_other_session[of A B e st message style] ask_other_session[of A B e st h message style]
  by (intro impI conjI)

theorem ask_session_isolated_witness:
  "''a'' \<noteq> ''b''
   \<and> message_store (fst (ask env_ok two_sessions ''q'' ''a'' ''short'')) ''b'' = message_store two_sessions ''b''
   \<and> ask env_ok (two_sessions\<lparr>message_store := (message_store two_sessions)(''b'' := None)\<rparr>) ''q'' ''a'' ''short''
       = (case ask env_ok two_sessions ''q'' ''a'' ''short'' of
            (st', r) \<Rightarrow> (st'\<lparr>message_store := (message_store st')(''b'' := None)\<rparr>, r))"
proof -
  have h: "''a'' \<noteq> ''b''" by simp
  note t = ask_session_isolated[of "''a''" "''b''" env_ok two_sessions "''q''" "''short''" None, THEN mp, OF h]
  from h t show ?thesis by (rule conjI)
qed

text \<open>
  C9: \<open>reset_session\<close> removes the history of the session; for a session that is absent it
  changes nothing, so a second reset changes nothing; the documents of the store and the
  histories of all other sessions stay as they were.  It has no way to fail.
\<close>

theorem reset_session_frame:
  "message_store (reset_session st sid) sid = None
   \<and> (message_store st sid = None \<longrightarrow> reset_session st sid = st)
   \<and> reset_session (reset_session st sid) sid = reset_session st sid
   \<and> vectorstore (reset_session st sid) = vectorstore st
   \<and> (\<forall>other. other \<noteq> sid \<longrightarrow> message_store (reset_session st sid) other = message_store st other)"
  by (simp add: reset_session_def)

theorem reset_session_frame_witness:
  "message_store two_sessions ''a'' \<noteq> None
   \<and> message_store (reset_session two_sessions ''a'') ''a'' = None
   \<and> vectorstore (reset_session two_sessions ''a'') = vectorstore two_sessions
   \<and> ''b'' \<noteq> ''a''
   \<and> message_store (reset_session two_sessions ''a'') ''b'' = message_store two_sessions ''b''
   \<and> message_store two_sessions ''zz'' = None
   \<and> reset_session two_sessions ''zz'' = two_sessions"
proof -
  note t = reset_session_frame[of two_sessions "''a''"]
  note u = reset_session_frame[of two_sessions "''zz''"]
  have p: "message_store two_sessions ''a'' \<noteq> None" by (simp add: two_sessions_def)
  have b: "''b'' \<noteq> ''a''" by simp
  have z: "message_store two_sessions ''zz'' = None" by (simp add: two_sessions_def)
  note 1 = t[THEN conjunct1]
  note 2 = t[THEN conjunct2, THEN conjunct2, THEN conjunct2, THEN conjunct1]
  note 3 = t[THEN conjunct2, THEN conjunct2, THEN conjunct2, THEN conjunct2, THEN spec, THEN mp, OF b]
  note 4 = u[THEN conjunct2, THEN conjunct1, THEN mp, OF z]
  from p 1 2 b 3 z 4 show ?thesis by (intro conjI)
qed

end
